theory Spec2Isabelle
  imports Main "HOL-Library.Word"
begin

unbundle bit_operations_syntax

section \<open>Spinlocks (arch/x86/lib/spinlock.c)\<close>

text \<open>
  \<open>union x86_rflags\<close> (include/x86/x86.h) is the raw 64-bit register image; its bit field
  \<open>irqs_enabled\<close> is bit 9 of the register.
\<close>

type_synonym x86_rflags = "64 word"

definition irqs_enabled :: "x86_rflags \<Rightarrow> bool" where
  "irqs_enabled f = bit f 9"

text \<open>\<open>struct lock_spin\<close>: the lock word and the flags saved at acquisition.\<close>

record lock_spin =
  val :: "32 word"
  rflags :: x86_rflags

definition SPIN_LOCKED :: "32 word" where
  "SPIN_LOCKED = 1"

definition SPIN_UNLOCKED :: "32 word" where
  "SPIN_UNLOCKED = 0"

text \<open>
  What the spinlock functions touch: the lock they are given and the flags register of the
  CPU that executes them.
\<close>

record machine =
  lock :: lock_spin
  cpu_rflags :: x86_rflags

text \<open>\<open>set_rflags\<close> (include/x86/x86.h): \<open>pushq flags; popfq\<close> loads the whole register.\<close>

definition set_rflags :: "x86_rflags \<Rightarrow> machine \<Rightarrow> machine" where
  "set_rflags flags m = m\<lparr>cpu_rflags := flags\<rparr>"

text \<open>
  Modelled from the spec: \<open>local_irq_disable\<close>, \<open>local_irq_disable_save\<close> and
  \<open>local_irq_restore\<close>, which spinlock.c calls and whose header is not under src/. The spec
  has the lock "disable local interrupts, save the prior interrupt-enable state" and the unlock
  "restore the previously saved interrupt-enable state": disabling clears the interrupt-enable
  bit of the register, saving returns the register as it was before, restoring loads the saved
  register with \<open>set_rflags\<close>.
\<close>

definition local_irq_disable :: "machine \<Rightarrow> machine" where
  "local_irq_disable m = m\<lparr>cpu_rflags := unset_bit 9 (cpu_rflags m)\<rparr>"

definition local_irq_disable_save :: "machine \<Rightarrow> x86_rflags \<times> machine" where
  "local_irq_disable_save m = (cpu_rflags m, local_irq_disable m)"

definition local_irq_restore :: "x86_rflags \<Rightarrow> machine \<Rightarrow> machine" where
  "local_irq_restore flags m = set_rflags flags m"

text \<open>
  Modelled from the spec: \<open>atomic_bit_test_and_set\<close>, called by spinlock.c on the lock word
  and not under src/. The spec calls it "an atomic test-and-set": in one step it returns the old
  value of the lock bit (bit 0, the only bit \<open>_SPIN_LOCKED = 1\<close> has) and sets that bit.
\<close>

definition atomic_bit_test_and_set :: "machine \<Rightarrow> 32 word \<times> machine" where
  "atomic_bit_test_and_set m =
     (val (lock m) AND 1, m\<lparr>lock := (lock m)\<lparr>val := val (lock m) OR 1\<rparr>\<rparr>)"

definition spin_init :: "machine \<Rightarrow> machine" where
  "spin_init m = m\<lparr>lock := (lock m)\<lparr>val := SPIN_UNLOCKED\<rparr>\<rparr>"

text \<open>
  \<open>spin_trylock\<close>: save the flags and disable interrupts, one test-and-set; on failure
  restore the flags and return false, on success store the saved flags in the lock and return
  true.
\<close>

definition spin_trylock :: "machine \<Rightarrow> bool \<times> machine" where
  "spin_trylock m =
     (let (flags, m1) = local_irq_disable_save m;
          (old, m2) = atomic_bit_test_and_set m1
      in if old = SPIN_LOCKED then (False, local_irq_restore flags m2)
         else (True, m2\<lparr>lock := (lock m2)\<lparr>rflags := flags\<rparr>\<rparr>))"

text \<open>
  \<open>spin_unlock\<close> has two side effects after reading \<open>lock->rflags\<close> into a local. The
  model lists the machine state after each of them, in program order; the state the function
  leaves is the last one.
\<close>

definition spin_unlock_steps :: "machine \<Rightarrow> machine list" where
  "spin_unlock_steps m =
     (let flags = rflags (lock m);
          m1 = m\<lparr>lock := (lock m)\<lparr>val := SPIN_UNLOCKED\<rparr>\<rparr>;
          m2 = local_irq_restore flags m1
      in [m1, m2])"

definition spin_unlock :: "machine \<Rightarrow> machine" where
  "spin_unlock m = last (spin_unlock_steps m)"

text \<open>
  A step from \<open>a\<close> to \<open>b\<close> that changes the flags register is taken with the lock word
  reading unlocked in \<open>a\<close>.
\<close>

fun restores_unlocked_only :: "machine \<Rightarrow> machine list \<Rightarrow> bool" where
  "restores_unlocked_only a [] = True"
| "restores_unlocked_only a (b # bs) =
     ((cpu_rflags b \<noteq> cpu_rflags a \<longrightarrow> val (lock a) = SPIN_UNLOCKED)
      \<and> restores_unlocked_only b bs)"


section \<open>The O(1) run-queue (kernel/queue/o1.c)\<close>

text \<open>
  Pointers to \<open>struct thread_struct\<close>. The list heads of a run-queue are themselves
  thread structs inside the run-queue: \<open>Head c p\<close> is \<open>&run_tq[c].array[p]\<close>, and
  \<open>Thr t\<close> is the address of the thread descriptor \<open>t\<close>.
\<close>

datatype ptr = Null | Head nat nat | Thr nat

record thread_struct =
  priority :: nat
  "next" :: ptr
  prev :: ptr

text \<open>
  \<open>struct runqueue\<close> (its declaration is not under src/): the fields o1.c uses are
  \<open>array\<close>, one list head per priority, and \<open>bitmap\<close>, which the spec describes as a
  bit-vector of length \<open>NR_PRIORITIES\<close>. Both lists have \<open>NR_PRIORITIES\<close> entries.
\<close>

record runqueue =
  array :: "thread_struct list"
  bitmap :: "bool list"

text \<open>
  The memory o1.c works on: the per-CPU run-queues \<open>run_tq[]\<close>, the thread descriptors,
  and the per-CPU \<open>bindex[]\<close>.
\<close>

record kernel =
  run_tq :: "nat \<Rightarrow> runqueue"
  threads :: "nat \<Rightarrow> thread_struct"
  bindex :: "nat \<Rightarrow> nat"

text \<open>
  The C code checks no pointer and no index. An access through a null pointer or outside an
  array is undefined behaviour in C; the model makes it the result \<open>Inl\<close> of the operation,
  naming the access, so that \<open>Inr\<close> means that every access of the operation was to an
  existing object. \<open>Inl\<close> is not an error path of the code.
\<close>

datatype invalid_access = NullPointer | OutOfBounds nat

definition andthen ::
  "invalid_access + 'a \<Rightarrow> ('a \<Rightarrow> invalid_access + 'b) \<Rightarrow> invalid_access + 'b" where
  "andthen m f = (case m of Inl e \<Rightarrow> Inl e | Inr x \<Rightarrow> f x)"

definition load :: "kernel \<Rightarrow> ptr \<Rightarrow> invalid_access + thread_struct" where
  "load s a =
     (case a of
        Null \<Rightarrow> Inl NullPointer
      | Head c i \<Rightarrow>
          if i < length (array (run_tq s c)) then Inr (array (run_tq s c) ! i)
          else Inl (OutOfBounds i)
      | Thr t \<Rightarrow> Inr (threads s t))"

definition store :: "kernel \<Rightarrow> ptr \<Rightarrow> thread_struct \<Rightarrow> invalid_access + kernel" where
  "store s a v =
     (case a of
        Null \<Rightarrow> Inl NullPointer
      | Head c i \<Rightarrow>
          if i < length (array (run_tq s c))
          then Inr (s\<lparr>run_tq := (run_tq s)
                  (c := (run_tq s c)\<lparr>array := (array (run_tq s c))[i := v]\<rparr>)\<rparr>)
          else Inl (OutOfBounds i)
      | Thr t \<Rightarrow> Inr (s\<lparr>threads := (threads s)(t := v)\<rparr>))"

text \<open>Reading and writing one field through a pointer: \<open>a->priority\<close>, \<open>a->next\<close>, \<open>a->prev\<close>.\<close>

definition get_priority :: "kernel \<Rightarrow> ptr \<Rightarrow> invalid_access + nat" where
  "get_priority s a = andthen (load s a) (\<lambda>n. Inr (priority n))"

definition get_next :: "kernel \<Rightarrow> ptr \<Rightarrow> invalid_access + ptr" where
  "get_next s a = andthen (load s a) (\<lambda>n. Inr (next n))"

definition get_prev :: "kernel \<Rightarrow> ptr \<Rightarrow> invalid_access + ptr" where
  "get_prev s a = andthen (load s a) (\<lambda>n. Inr (prev n))"

definition set_next :: "kernel \<Rightarrow> ptr \<Rightarrow> ptr \<Rightarrow> invalid_access + kernel" where
  "set_next s a v = andthen (load s a) (\<lambda>n. store s a (n\<lparr>next := v\<rparr>))"

definition set_prev :: "kernel \<Rightarrow> ptr \<Rightarrow> ptr \<Rightarrow> invalid_access + kernel" where
  "set_prev s a v = andthen (load s a) (\<lambda>n. store s a (n\<lparr>prev := v\<rparr>))"

text \<open>
  Modelled from the spec: \<open>set_bit\<close>, \<open>clear_bit\<close> and \<open>find_first_bit\<close>, the bitmap
  helpers o1.c calls, which are not under src/. The spec has enqueue "set the corresponding
  bitmap bit", dequeue "clear the corresponding bitmap bit" and pick-next "find the
  lowest-numbered set bit in bitmap; if no bit is set, return no runnable thread".
  \<open>set_bit_rq s rq n\<close> is \<open>set_bit(rq->bitmap, n)\<close> for \<open>rq = &run_tq[rq]\<close>, and
  \<open>clear_bit_rq\<close> likewise. \<open>find_first_bit\<close> returns the index of the lowest set bit and,
  when no bit is set, the number of bits, which is \<open>NR_PRIORITIES\<close>, the value
  \<open>pick_next_task\<close> tests for; its size argument (\<open>NR_PRIORITY_BITMAPS\<close>, the extent of
  the bitmap's storage) is carried by the list.
\<close>

definition set_bit_rq :: "kernel \<Rightarrow> nat \<Rightarrow> nat \<Rightarrow> invalid_access + kernel" where
  "set_bit_rq s rq n =
     (if n < length (bitmap (run_tq s rq))
      then Inr (s\<lparr>run_tq := (run_tq s)
              (rq := (run_tq s rq)\<lparr>bitmap := (bitmap (run_tq s rq))[n := True]\<rparr>)\<rparr>)
      else Inl (OutOfBounds n))"

definition clear_bit_rq :: "kernel \<Rightarrow> nat \<Rightarrow> nat \<Rightarrow> invalid_access + kernel" where
  "clear_bit_rq s rq n =
     (if n < length (bitmap (run_tq s rq))
      then Inr (s\<lparr>run_tq := (run_tq s)
              (rq := (run_tq s rq)\<lparr>bitmap := (bitmap (run_tq s rq))[n := False]\<rparr>)\<rparr>)
      else Inl (OutOfBounds n))"

definition find_first_bit :: "bool list \<Rightarrow> nat" where
  "find_first_bit bm = length (takeWhile Not bm)"

text \<open>
  \<open>enqueue_rq_queue_head(rq, th)\<close>, statement by statement; \<open>th->priority\<close> is read again
  in every statement, as the code does.
\<close>

definition enqueue_rq_queue_head :: "kernel \<Rightarrow> nat \<Rightarrow> ptr \<Rightarrow> invalid_access + kernel" where
  "enqueue_rq_queue_head s rq th =
     andthen (get_priority s th) (\<lambda>p. andthen (set_bit_rq s rq p) (\<lambda>s1.
     andthen (get_priority s1 th) (\<lambda>p. andthen (get_next s1 (Head rq p)) (\<lambda>n.
       andthen (set_prev s1 n th) (\<lambda>s2.
     andthen (get_priority s2 th) (\<lambda>p. andthen (get_next s2 (Head rq p)) (\<lambda>n.
       andthen (set_next s2 th n) (\<lambda>s3.
     andthen (get_priority s3 th) (\<lambda>p. andthen (set_prev s3 th (Head rq p)) (\<lambda>s4.
     andthen (get_priority s4 th) (\<lambda>p. set_next s4 (Head rq p) th)))))))))))"

definition enqueue_rq_queue :: "kernel \<Rightarrow> nat \<Rightarrow> ptr \<Rightarrow> invalid_access + kernel" where
  "enqueue_rq_queue s rq th =
     andthen (get_priority s th) (\<lambda>p. andthen (set_bit_rq s rq p) (\<lambda>s1.
     andthen (get_priority s1 th) (\<lambda>p. andthen (get_prev s1 (Head rq p)) (\<lambda>t.
       andthen (set_next s1 t th) (\<lambda>s2.
     andthen (get_priority s2 th) (\<lambda>p. andthen (get_prev s2 (Head rq p)) (\<lambda>t.
       andthen (set_prev s2 th t) (\<lambda>s3.
     andthen (get_priority s3 th) (\<lambda>p. andthen (set_next s3 th (Head rq p)) (\<lambda>s4.
     andthen (get_priority s4 th) (\<lambda>p. set_prev s4 (Head rq p) th)))))))))))"

definition dequeue_rq_queue :: "kernel \<Rightarrow> nat \<Rightarrow> ptr \<Rightarrow> invalid_access + kernel" where
  "dequeue_rq_queue s rq th =
     andthen (get_priority s th) (\<lambda>p. andthen (get_next s (Head rq p)) (\<lambda>first.
     andthen
       (if first = th
        then andthen (get_priority s th) (\<lambda>p. andthen (get_next s th) (\<lambda>n.
               set_next s (Head rq p) n))
        else andthen (get_prev s th) (\<lambda>t. andthen (get_next s th) (\<lambda>n.
               set_next s t n))) (\<lambda>s1.
     andthen (get_next s1 th) (\<lambda>n. andthen (get_prev s1 th) (\<lambda>t.
       andthen (set_prev s1 n t) (\<lambda>s2.
     andthen (get_priority s2 th) (\<lambda>p. andthen (get_next s2 (Head rq p)) (\<lambda>first.
       if first = Head rq p
       then andthen (get_priority s2 th) (\<lambda>p. clear_bit_rq s2 rq p)
       else Inr s2))))))))"

text \<open>
  \<open>pick_next_task()\<close> on the CPU \<open>cpu\<close> (the value of \<open>get_cpu_id()\<close>), with the constant
  \<open>NR_PRIORITIES\<close> (not under src/) as a parameter. It returns the thread pointer and the
  memory, in which only \<open>bindex[cpu]\<close> is written.
\<close>

definition pick_next_task :: "nat \<Rightarrow> kernel \<Rightarrow> nat \<Rightarrow> invalid_access + ptr \<times> kernel" where
  "pick_next_task NR_PRIORITIES s cpu =
     (let th = Null;
          s1 = s\<lparr>bindex := (bindex s)(cpu := find_first_bit (bitmap (run_tq s cpu)))\<rparr>
      in if bindex s1 cpu \<noteq> NR_PRIORITIES
         then andthen (get_next s1 (Head cpu (bindex s1 cpu))) (\<lambda>th. Inr (th, s1))
         else Inr (th, s1))"

text \<open>
  \<open>init_rq()\<close> on the CPU \<open>cpu\<close>: the loop over \<open>i\<close>, whose body assigns the address of
  the head to its \<open>next\<close> and then to its \<open>prev\<close>.
\<close>

function init_rq_loop :: "nat \<Rightarrow> kernel \<Rightarrow> nat \<Rightarrow> nat \<Rightarrow> invalid_access + kernel" where
  "init_rq_loop NR_PRIORITIES s cpu i =
     (if i < NR_PRIORITIES
      then andthen (set_next s (Head cpu i) (Head cpu i)) (\<lambda>s1.
           andthen (set_prev s1 (Head cpu i) (Head cpu i)) (\<lambda>s2.
             init_rq_loop NR_PRIORITIES s2 cpu (Suc i)))
      else Inr s)"
  by pat_completeness auto
termination
  by (relation "measure (\<lambda>(n, s, cpu, i). n - i)") auto

definition init_rq :: "nat \<Rightarrow> kernel \<Rightarrow> nat \<Rightarrow> invalid_access + kernel" where
  "init_rq NR_PRIORITIES s cpu = init_rq_loop NR_PRIORITIES s cpu 0"


section \<open>Views of the memory\<close>

text \<open>
  A pointer is valid when it designates an existing struct: a thread descriptor, or a list head
  inside the bounds of its run-queue's array. \<open>node s a\<close> is the struct a valid pointer
  designates; \<open>nxt\<close>, \<open>prv\<close> and \<open>prio\<close> read its fields.
\<close>

definition valid :: "kernel \<Rightarrow> ptr \<Rightarrow> bool" where
  "valid s a =
     (case a of Null \<Rightarrow> False | Head c i \<Rightarrow> i < length (array (run_tq s c)) | Thr t \<Rightarrow> True)"

definition node :: "kernel \<Rightarrow> ptr \<Rightarrow> thread_struct" where
  "node s a =
     (case a of
        Null \<Rightarrow> \<lparr>priority = 0, next = Null, prev = Null\<rparr>
      | Head c i \<Rightarrow> array (run_tq s c) ! i
      | Thr t \<Rightarrow> threads s t)"

definition nxt :: "kernel \<Rightarrow> ptr \<Rightarrow> ptr" where
  "nxt s a = next (node s a)"

definition prv :: "kernel \<Rightarrow> ptr \<Rightarrow> ptr" where
  "prv s a = prev (node s a)"

definition prio :: "kernel \<Rightarrow> ptr \<Rightarrow> nat" where
  "prio s a = priority (node s a)"

text \<open>The memory after a successful store, after a write to one field, after a bitmap write.\<close>

definition put :: "kernel \<Rightarrow> ptr \<Rightarrow> thread_struct \<Rightarrow> kernel" where
  "put s a v =
     (case a of
        Null \<Rightarrow> s
      | Head c i \<Rightarrow>
          s\<lparr>run_tq := (run_tq s)(c := (run_tq s c)\<lparr>array := (array (run_tq s c))[i := v]\<rparr>)\<rparr>
      | Thr t \<Rightarrow> s\<lparr>threads := (threads s)(t := v)\<rparr>)"

definition upd_next :: "kernel \<Rightarrow> ptr \<Rightarrow> ptr \<Rightarrow> kernel" where
  "upd_next s a x = put s a ((node s a)\<lparr>next := x\<rparr>)"

definition upd_prev :: "kernel \<Rightarrow> ptr \<Rightarrow> ptr \<Rightarrow> kernel" where
  "upd_prev s a x = put s a ((node s a)\<lparr>prev := x\<rparr>)"

definition put_bitmap :: "kernel \<Rightarrow> nat \<Rightarrow> bool list \<Rightarrow> kernel" where
  "put_bitmap s c bm = s\<lparr>run_tq := (run_tq s)(c := (run_tq s c)\<lparr>bitmap := bm\<rparr>)\<rparr>"


section \<open>Well-formed run-queues\<close>

text \<open>
  \<open>chain nx pv a ts z\<close>: following the \<open>next\<close> pointers \<open>nx\<close> from the node \<open>a\<close>
  visits the threads \<open>ts\<close> in order and then reaches \<open>z\<close>, and the \<open>prev\<close> pointers
  \<open>pv\<close> lead back along the same way.
\<close>

fun chain :: "(ptr \<Rightarrow> ptr) \<Rightarrow> (ptr \<Rightarrow> ptr) \<Rightarrow> ptr \<Rightarrow> nat list \<Rightarrow> ptr \<Rightarrow> bool" where
  "chain nx pv a [] z = (nx a = z \<and> pv z = a)"
| "chain nx pv a (t # ts) z = (nx a = Thr t \<and> pv (Thr t) = a \<and> chain nx pv (Thr t) ts z)"

text \<open>
  A consistent circular list with head \<open>h\<close> and the threads \<open>ts\<close>: the chain from the
  head through \<open>ts\<close> closes at the head, and no thread occurs twice.
\<close>

definition dll :: "(ptr \<Rightarrow> ptr) \<Rightarrow> (ptr \<Rightarrow> ptr) \<Rightarrow> ptr \<Rightarrow> nat list \<Rightarrow> bool" where
  "dll nx pv h ts \<longleftrightarrow> chain nx pv h ts h \<and> distinct ts"

text \<open>The priority-\<open>p\<close> list of run-queue \<open>c\<close> holds the threads \<open>ts\<close>, all of priority \<open>p\<close>.\<close>

definition queue_at :: "kernel \<Rightarrow> nat \<Rightarrow> nat \<Rightarrow> nat list \<Rightarrow> bool" where
  "queue_at s c p ts \<longleftrightarrow>
     dll (nxt s) (prv s) (Head c p) ts \<and> (\<forall>t \<in> set ts. prio s (Thr t) = p)"

text \<open>
  Run-queue \<open>c\<close> is well-formed with the list contents \<open>qs\<close>: array and bitmap have
  \<open>NR_PRIORITIES\<close> entries and every priority list is a consistent circular list of threads
  of that priority.
\<close>

definition rq_wf :: "nat \<Rightarrow> kernel \<Rightarrow> nat \<Rightarrow> nat list list \<Rightarrow> bool" where
  "rq_wf NR_PRIORITIES s c qs \<longleftrightarrow>
     length (array (run_tq s c)) = NR_PRIORITIES \<and>
     length (bitmap (run_tq s c)) = NR_PRIORITIES \<and>
     length qs = NR_PRIORITIES \<and>
     (\<forall>p < NR_PRIORITIES. queue_at s c p (qs ! p))"

text \<open>
  The bitmap invariant: bit \<open>p\<close> is set exactly when the priority-\<open>p\<close> list is non-empty,
  that is, when the head's \<open>next\<close> is not the head itself (the test of
  \<open>dequeue_rq_queue\<close>).
\<close>

definition bitmap_ok :: "kernel \<Rightarrow> nat \<Rightarrow> bool" where
  "bitmap_ok s c \<longleftrightarrow>
     (\<forall>p < length (bitmap (run_tq s c)).
        bitmap (run_tq s c) ! p \<longleftrightarrow> nxt s (Head c p) \<noteq> Head c p)"


section \<open>Sequences of run-queue operations\<close>

datatype rq_op = Enqueue_head nat | Enqueue nat | Dequeue nat

text \<open>The thread an operation is applied to.\<close>

fun op_thread :: "rq_op \<Rightarrow> nat" where
  "op_thread (Enqueue_head t) = t"
| "op_thread (Enqueue t) = t"
| "op_thread (Dequeue t) = t"

fun run_op :: "kernel \<Rightarrow> nat \<Rightarrow> rq_op \<Rightarrow> invalid_access + kernel" where
  "run_op s c (Enqueue_head t) = enqueue_rq_queue_head s c (Thr t)"
| "run_op s c (Enqueue t) = enqueue_rq_queue s c (Thr t)"
| "run_op s c (Dequeue t) = dequeue_rq_queue s c (Thr t)"

fun run_ops :: "kernel \<Rightarrow> nat \<Rightarrow> rq_op list \<Rightarrow> invalid_access + kernel" where
  "run_ops s c [] = Inr s"
| "run_ops s c (x # xs) = andthen (run_op s c x) (\<lambda>s'. run_ops s' c xs)"

text \<open>
  The precondition of an operation on lists with the contents \<open>qs\<close>, for threads whose
  priorities are \<open>pr\<close>: an enqueued thread has a priority in range and is not queued, a
  dequeued thread is queued. \<open>lists_after\<close> is the effect the operation is meant to have on
  the contents.
\<close>

fun pre_op :: "(nat \<Rightarrow> nat) \<Rightarrow> nat list list \<Rightarrow> rq_op \<Rightarrow> bool" where
  "pre_op pr qs (Enqueue_head t) = (pr t < length qs \<and> t \<notin> set (concat qs))"
| "pre_op pr qs (Enqueue t) = (pr t < length qs \<and> t \<notin> set (concat qs))"
| "pre_op pr qs (Dequeue t) = (t \<in> set (concat qs))"

fun lists_after :: "(nat \<Rightarrow> nat) \<Rightarrow> nat list list \<Rightarrow> rq_op \<Rightarrow> nat list list" where
  "lists_after pr qs (Enqueue_head t) = qs[pr t := t # qs ! pr t]"
| "lists_after pr qs (Enqueue t) = qs[pr t := qs ! pr t @ [t]]"
| "lists_after pr qs (Dequeue t) = qs[pr t := remove1 t (qs ! pr t)]"

fun pre_ops :: "(nat \<Rightarrow> nat) \<Rightarrow> nat list list \<Rightarrow> rq_op list \<Rightarrow> bool" where
  "pre_ops pr qs [] = True"
| "pre_ops pr qs (x # xs) = (pre_op pr qs x \<and> pre_ops pr (lists_after pr qs x) xs)"


section \<open>Picking and dequeueing in turn\<close>

text \<open>
  The use the spec makes of \<open>pick_next_task\<close>: pick the next thread without removing it,
  then dequeue the thread that was picked, up to \<open>k\<close> times, stopping when no thread is
  runnable. The result lists the threads in the order in which they were yielded.
\<close>

fun pick_and_dequeue :: "nat \<Rightarrow> kernel \<Rightarrow> nat \<Rightarrow> nat \<Rightarrow> invalid_access + ptr list \<times> kernel" where
  "pick_and_dequeue NR_PRIORITIES s cpu 0 = Inr ([], s)"
| "pick_and_dequeue NR_PRIORITIES s cpu (Suc k) =
     andthen (pick_next_task NR_PRIORITIES s cpu) (\<lambda>(th, s1).
       if th = Null then Inr ([], s1)
       else andthen (dequeue_rq_queue s1 cpu th) (\<lambda>s2.
            andthen (pick_and_dequeue NR_PRIORITIES s2 cpu k) (\<lambda>(ths, s3).
              Inr (th # ths, s3))))"


section \<open>A run-queue memory after boot\<close>

text \<open>
  The memory in which every list head of every run-queue points to itself, every bitmap bit is
  clear, and thread \<open>t\<close> has the priority \<open>pr t\<close> and null links: zero-filled static
  storage after \<open>init_rq\<close>, with the thread descriptors created.
\<close>

definition empty_rq :: "nat \<Rightarrow> nat \<Rightarrow> runqueue" where
  "empty_rq NR_PRIORITIES c =
     \<lparr>array = map (\<lambda>p. \<lparr>priority = 0, next = Head c p, prev = Head c p\<rparr>) [0..<NR_PRIORITIES],
      bitmap = replicate NR_PRIORITIES False\<rparr>"

definition idle_kernel :: "nat \<Rightarrow> (nat \<Rightarrow> nat) \<Rightarrow> kernel" where
  "idle_kernel NR_PRIORITIES pr =
     \<lparr>run_tq = empty_rq NR_PRIORITIES,
      threads = (\<lambda>t. \<lparr>priority = pr t, next = Null, prev = Null\<rparr>),
      bindex = (\<lambda>c. 0)\<rparr>"

text \<open>
  The priorities of the concrete scenario of the spec, with \<open>NR_PRIORITIES = 4\<close>: thread 1
  has priority 2, thread 2 priority 0, thread 3 priority 2 (and every other thread priority 1).
\<close>

definition scenario_prio :: "nat \<Rightarrow> nat" where
  "scenario_prio t = (if t = 1 then 2 else if t = 2 then 0 else if t = 3 then 2 else 1)"

text \<open>
  A run-queue memory whose lists are empty and whose bitmap still has bit 2 set, as static
  storage that is not zero-filled or a run-queue that is initialised a second time.
\<close>

definition stale_kernel :: kernel where
  "stale_kernel = put_bitmap (idle_kernel 4 scenario_prio) 0 [False, False, True, False]"

text \<open>
  The memory of the concrete scenario of the spec: run-queue 0 after threads 1 (priority 2),
  2 (priority 0) and 3 (priority 2) have been enqueued at the tail, in this order.
\<close>

definition scenario_kernel :: kernel where
  "scenario_kernel =
     \<lparr>run_tq = (empty_rq 4)
        (0 := \<lparr>array = [\<lparr>priority = 0, next = Thr 2, prev = Thr 2\<rparr>,
                         \<lparr>priority = 0, next = Head 0 1, prev = Head 0 1\<rparr>,
                         \<lparr>priority = 0, next = Thr 1, prev = Thr 3\<rparr>,
                         \<lparr>priority = 0, next = Head 0 3, prev = Head 0 3\<rparr>],
                bitmap = [True, False, True, False]\<rparr>),
      threads = (\<lambda>t. if t = 1 then \<lparr>priority = 2, next = Thr 3, prev = Head 0 2\<rparr>
                     else if t = 2 then \<lparr>priority = 0, next = Head 0 0, prev = Head 0 0\<rparr>
                     else if t = 3 then \<lparr>priority = 2, next = Head 0 2, prev = Thr 1\<rparr>
                     else \<lparr>priority = scenario_prio t, next = Null, prev = Null\<rparr>),
      bindex = (\<lambda>c. 0)\<rparr>"

section \<open>Properties of the spinlock\<close>

text \<open>
  C6. \<open>spin_unlock\<close> performs two effects in this order: the first step writes the lock word
  to unlocked and leaves the flags register as it was; the second step loads the flags that
  were saved in the lock at acquisition and leaves the lock word unlocked. No step changes the
  flags register from a state in which the lock word reads locked.
\<close>

theorem spin_unlock_clears_then_restores:
  "\<exists>m1 m2. spin_unlock_steps m = [m1, m2]
     \<and> val (lock m1) = SPIN_UNLOCKED \<and> cpu_rflags m1 = cpu_rflags m
     \<and> rflags (lock m1) = rflags (lock m)
     \<and> val (lock m2) = SPIN_UNLOCKED \<and> cpu_rflags m2 = rflags (lock m)
     \<and> spin_unlock m = m2
     \<and> restores_unlocked_only m (spin_unlock_steps m)"
  by (simp add: spin_unlock_steps_def spin_unlock_def local_irq_restore_def set_rflags_def Let_def)

theorem spin_unlock_clears_then_restores_witness:
  "spin_unlock \<lparr>lock = \<lparr>val = 1, rflags = 0x202\<rparr>, cpu_rflags = 2\<rparr>
     = \<lparr>lock = \<lparr>val = 0, rflags = 0x202\<rparr>, cpu_rflags = 0x202\<rparr>
   \<and> restores_unlocked_only \<lparr>lock = \<lparr>val = 1, rflags = 0x202\<rparr>, cpu_rflags = 2\<rparr>
       (spin_unlock_steps \<lparr>lock = \<lparr>val = 1, rflags = 0x202\<rparr>, cpu_rflags = 2\<rparr>)"
  using spin_unlock_clears_then_restores
    [of "\<lparr>lock = \<lparr>val = 1, rflags = 0x202\<rparr>, cpu_rflags = 2\<rparr>"]
  by (auto simp: SPIN_UNLOCKED_def spin_unlock_steps_def local_irq_restore_def set_rflags_def
      Let_def)

lemma or_one_absorb: "(v::32 word) AND 1 = 1 \<Longrightarrow> v OR 1 = v"
  by (metis word_bw_comms(2) word_ao_absorbs(8))

lemma and_one_eq_one_iff: "(v::32 word) AND 1 = 1 \<longleftrightarrow> bit v 0"
  by (simp add: and_one_eq bit_0 odd_iff_mod_2_eq_one)

text \<open>
  C9. \<open>spin_trylock\<close> makes one test-and-set. If it finds the lock bit set (the lock is
  held), it returns false and the machine is exactly as before the call: the flags register
  holds the caller's flags again, and the lock's \<open>val\<close> and \<open>rflags\<close> are unchanged. If it
  finds the lock free, it returns true with the lock bit set (a lock word that read
  \<open>_SPIN_UNLOCKED\<close> now reads \<open>_SPIN_LOCKED\<close>), interrupts disabled, and the flags of the
  caller saved in the lock.
\<close>

theorem spin_trylock_result:
  "(bit (val (lock m)) 0 \<longrightarrow> spin_trylock m = (False, m)) \<and>
   (\<not> bit (val (lock m)) 0 \<longrightarrow>
      (\<exists>m'. spin_trylock m = (True, m') \<and> bit (val (lock m')) 0
         \<and> (val (lock m) = SPIN_UNLOCKED \<longrightarrow> val (lock m') = SPIN_LOCKED)
         \<and> \<not> irqs_enabled (cpu_rflags m') \<and> rflags (lock m') = cpu_rflags m))"
proof (cases "bit (val (lock m)) 0")
  case True
  then have "val (lock m) OR 1 = val (lock m)"
    by (simp add: or_one_absorb and_one_eq_one_iff)
  with True show ?thesis
    by (simp add: spin_trylock_def local_irq_disable_save_def local_irq_disable_def
        atomic_bit_test_and_set_def local_irq_restore_def set_rflags_def SPIN_LOCKED_def
        and_one_eq_one_iff)
next
  case False
  then show ?thesis
    by (simp add: spin_trylock_def local_irq_disable_save_def local_irq_disable_def
        atomic_bit_test_and_set_def SPIN_LOCKED_def SPIN_UNLOCKED_def irqs_enabled_def
        and_one_eq_one_iff bit_unset_bit_iff bit_or_iff bit_0 even_or_iff)
qed

theorem spin_trylock_result_witness:
  "spin_trylock \<lparr>lock = \<lparr>val = 1, rflags = 0x202\<rparr>, cpu_rflags = 0x246\<rparr>
     = (False, \<lparr>lock = \<lparr>val = 1, rflags = 0x202\<rparr>, cpu_rflags = 0x246\<rparr>)
   \<and> (\<exists>m'. spin_trylock \<lparr>lock = \<lparr>val = 0, rflags = 0\<rparr>, cpu_rflags = 0x246\<rparr> = (True, m')
         \<and> val (lock m') = SPIN_LOCKED \<and> \<not> irqs_enabled (cpu_rflags m')
         \<and> rflags (lock m') = 0x246)"
  using spin_trylock_result [of "\<lparr>lock = \<lparr>val = 1, rflags = 0x202\<rparr>, cpu_rflags = 0x246\<rparr>"]
    spin_trylock_result [of "\<lparr>lock = \<lparr>val = 0, rflags = 0\<rparr>, cpu_rflags = 0x246\<rparr>"]
  by (auto simp: SPIN_UNLOCKED_def bit_0)


section \<open>Memory accesses through valid pointers\<close>

lemma andthen_Inr [simp]: "andthen (Inr x) f = f x"
  by (simp add: andthen_def)

lemma andthen_Inl [simp]: "andthen (Inl e) f = Inl e"
  by (simp add: andthen_def)

lemma valid_Thr [simp]: "valid s (Thr t)"
  by (simp add: valid_def)

lemma valid_Head [simp]: "valid s (Head c i) \<longleftrightarrow> i < length (array (run_tq s c))"
  by (simp add: valid_def)

lemma valid_Null [simp]: "\<not> valid s Null"
  by (simp add: valid_def)

lemma load_valid: "valid s a \<Longrightarrow> load s a = Inr (node s a)"
  by (cases a) (simp_all add: load_def node_def)

lemma store_valid: "valid s a \<Longrightarrow> store s a v = Inr (put s a v)"
  by (cases a) (simp_all add: store_def put_def)

lemma valid_put: "valid (put s a v) b = valid s b"
  by (cases a; cases b) (simp_all add: put_def)

lemma node_put: "valid s a \<Longrightarrow> node (put s a v) b = (if b = a then v else node s b)"
  by (cases a; cases b) (auto simp: put_def node_def)

lemma node_put_other: "b \<noteq> a \<Longrightarrow> node (put s a v) b = node s b"
  by (cases a; cases b) (auto simp: put_def node_def)

lemma bitmap_put: "bitmap (run_tq (put s a v) c) = bitmap (run_tq s c)"
  by (cases a) (simp_all add: put_def)

lemma length_array_put: "length (array (run_tq (put s a v) c)) = length (array (run_tq s c))"
  by (cases a) (simp_all add: put_def)

lemma bindex_put: "bindex (put s a v) = bindex s"
  by (cases a) (simp_all add: put_def)

lemma valid_upd_next [simp]: "valid (upd_next s a x) b = valid s b"
  by (simp add: upd_next_def valid_put)

lemma nxt_upd_next [simp]: "valid s a \<Longrightarrow> nxt (upd_next s a x) = (nxt s)(a := x)"
  by (rule ext) (simp add: nxt_def upd_next_def node_put)

lemma field_put_same:
  "prev (node (put s a ((node s a)\<lparr>next := x\<rparr>)) a) = prev (node s a)"
  "priority (node (put s a ((node s a)\<lparr>next := x\<rparr>)) a) = priority (node s a)"
  "next (node (put s a ((node s a)\<lparr>prev := x\<rparr>)) a) = next (node s a)"
  "priority (node (put s a ((node s a)\<lparr>prev := x\<rparr>)) a) = priority (node s a)"
proof -
  show "prev (node (put s a ((node s a)\<lparr>next := x\<rparr>)) a) = prev (node s a)"
    by (cases "valid s a"; cases a) (simp_all add: put_def node_def list_update_beyond)
  show "priority (node (put s a ((node s a)\<lparr>next := x\<rparr>)) a) = priority (node s a)"
    by (cases "valid s a"; cases a) (simp_all add: put_def node_def list_update_beyond)
  show "next (node (put s a ((node s a)\<lparr>prev := x\<rparr>)) a) = next (node s a)"
    by (cases "valid s a"; cases a) (simp_all add: put_def node_def list_update_beyond)
  show "priority (node (put s a ((node s a)\<lparr>prev := x\<rparr>)) a) = priority (node s a)"
    by (cases "valid s a"; cases a) (simp_all add: put_def node_def list_update_beyond)
qed

lemma prv_upd_next [simp]: "prv (upd_next s a x) = prv s"
  by (rule ext) (metis prv_def upd_next_def node_put_other field_put_same(1))

lemma prio_upd_next [simp]: "prio (upd_next s a x) = prio s"
  by (rule ext) (metis prio_def upd_next_def node_put_other field_put_same(2))

lemma bitmap_upd_next [simp]: "bitmap (run_tq (upd_next s a x) c) = bitmap (run_tq s c)"
  by (simp add: upd_next_def bitmap_put)

lemma length_array_upd_next [simp]:
  "length (array (run_tq (upd_next s a x) c)) = length (array (run_tq s c))"
  by (simp add: upd_next_def length_array_put)

lemma bindex_upd_next [simp]: "bindex (upd_next s a x) = bindex s"
  by (simp add: upd_next_def bindex_put)

lemma valid_upd_prev [simp]: "valid (upd_prev s a x) b = valid s b"
  by (simp add: upd_prev_def valid_put)

lemma prv_upd_prev [simp]: "valid s a \<Longrightarrow> prv (upd_prev s a x) = (prv s)(a := x)"
  by (rule ext) (simp add: prv_def upd_prev_def node_put)

lemma nxt_upd_prev [simp]: "nxt (upd_prev s a x) = nxt s"
  by (rule ext) (metis nxt_def upd_prev_def node_put_other field_put_same(3))

lemma prio_upd_prev [simp]: "prio (upd_prev s a x) = prio s"
  by (rule ext) (metis prio_def upd_prev_def node_put_other field_put_same(4))

lemma bitmap_upd_prev [simp]: "bitmap (run_tq (upd_prev s a x) c) = bitmap (run_tq s c)"
  by (simp add: upd_prev_def bitmap_put)

lemma length_array_upd_prev [simp]:
  "length (array (run_tq (upd_prev s a x) c)) = length (array (run_tq s c))"
  by (simp add: upd_prev_def length_array_put)

lemma bindex_upd_prev [simp]: "bindex (upd_prev s a x) = bindex s"
  by (simp add: upd_prev_def bindex_put)

lemma valid_put_bitmap [simp]: "valid (put_bitmap s c bm) b = valid s b"
  by (cases b) (simp_all add: put_bitmap_def)

lemma node_put_bitmap: "node (put_bitmap s c bm) b = node s b"
  by (cases b) (simp_all add: node_def put_bitmap_def)

lemma nxt_put_bitmap [simp]: "nxt (put_bitmap s c bm) = nxt s"
  by (rule ext) (simp add: nxt_def node_put_bitmap)

lemma prv_put_bitmap [simp]: "prv (put_bitmap s c bm) = prv s"
  by (rule ext) (simp add: prv_def node_put_bitmap)

lemma prio_put_bitmap [simp]: "prio (put_bitmap s c bm) = prio s"
  by (rule ext) (simp add: prio_def node_put_bitmap)

lemma bitmap_put_bitmap [simp]:
  "bitmap (run_tq (put_bitmap s c bm) c') = (if c' = c then bm else bitmap (run_tq s c'))"
  by (simp add: put_bitmap_def)

lemma length_array_put_bitmap [simp]:
  "length (array (run_tq (put_bitmap s c bm) c')) = length (array (run_tq s c'))"
  by (simp add: put_bitmap_def)

lemma bindex_put_bitmap [simp]: "bindex (put_bitmap s c bm) = bindex s"
  by (simp add: put_bitmap_def)

lemma get_priority_valid [simp]: "valid s a \<Longrightarrow> get_priority s a = Inr (prio s a)"
  by (simp add: get_priority_def load_valid prio_def)

lemma get_next_valid [simp]: "valid s a \<Longrightarrow> get_next s a = Inr (nxt s a)"
  by (simp add: get_next_def load_valid nxt_def)

lemma get_prev_valid [simp]: "valid s a \<Longrightarrow> get_prev s a = Inr (prv s a)"
  by (simp add: get_prev_def load_valid prv_def)

lemma set_next_valid [simp]: "valid s a \<Longrightarrow> set_next s a v = Inr (upd_next s a v)"
  by (simp add: set_next_def load_valid store_valid upd_next_def)

lemma set_prev_valid [simp]: "valid s a \<Longrightarrow> set_prev s a v = Inr (upd_prev s a v)"
  by (simp add: set_prev_def load_valid store_valid upd_prev_def)

lemma set_bit_rq_valid [simp]:
  "n < length (bitmap (run_tq s c)) \<Longrightarrow>
   set_bit_rq s c n = Inr (put_bitmap s c ((bitmap (run_tq s c))[n := True]))"
  by (simp add: set_bit_rq_def put_bitmap_def)

lemma clear_bit_rq_valid [simp]:
  "n < length (bitmap (run_tq s c)) \<Longrightarrow>
   clear_bit_rq s c n = Inr (put_bitmap s c ((bitmap (run_tq s c))[n := False]))"
  by (simp add: clear_bit_rq_def put_bitmap_def)


section \<open>Circular doubly-linked lists\<close>

lemma chain_append_Cons:
  "chain nx pv a (xs @ t # ys) z \<longleftrightarrow> chain nx pv a xs (Thr t) \<and> chain nx pv (Thr t) ys z"
  by (induction xs arbitrary: a) auto

lemma chain_cong:
  "\<forall>b \<in> set (a # map Thr ts). nx' b = nx b \<Longrightarrow>
   \<forall>b \<in> set (map Thr ts @ [z]). pv' b = pv b \<Longrightarrow>
   chain nx' pv' a ts z = chain nx pv a ts z"
proof (induction ts arbitrary: a)
  case Nil
  then show ?case by simp
next
  case (Cons t ts)
  have "chain nx' pv' (Thr t) ts z = chain nx pv (Thr t) ts z"
    using Cons.prems by (intro Cons.IH) simp_all
  with Cons.prems show ?case by simp
qed

lemma chain_upd_nx_Thr:
  "Thr u \<noteq> a \<Longrightarrow> u \<notin> set ts \<Longrightarrow> chain (nx(Thr u := v)) pv a ts z = chain nx pv a ts z"
  by (rule chain_cong) auto

lemma chain_upd_nx_Head:
  "Head c p \<noteq> a \<Longrightarrow> chain (nx(Head c p := v)) pv a ts z = chain nx pv a ts z"
  by (rule chain_cong) auto

lemma chain_upd_pv_Thr:
  "Thr u \<noteq> z \<Longrightarrow> u \<notin> set ts \<Longrightarrow> chain nx (pv(Thr u := v)) a ts z = chain nx pv a ts z"
  by (rule chain_cong) auto

lemma chain_upd_pv_Head:
  "Head c p \<noteq> z \<Longrightarrow> chain nx (pv(Head c p := v)) a ts z = chain nx pv a ts z"
  by (rule chain_cong) auto

lemmas chain_upd = chain_upd_nx_Thr chain_upd_nx_Head chain_upd_pv_Thr chain_upd_pv_Head

lemma chain_first: "chain nx pv a ts z \<Longrightarrow> nx a = hd (map Thr ts @ [z])"
  by (cases ts) simp_all

lemma chain_last: "chain nx pv a ts z \<Longrightarrow> pv z = last (a # map Thr ts)"
  by (cases ts rule: rev_cases) (simp_all add: chain_append_Cons)

lemma dll_Nil: "dll nx pv h [] \<longleftrightarrow> nx h = h \<and> pv h = h"
  by (simp add: dll_def)

lemma dll_empty_iff: "dll nx pv (Head c p) ts \<Longrightarrow> nx (Head c p) = Head c p \<longleftrightarrow> ts = []"
  by (cases ts) (simp_all add: dll_def)

lemma dll_cong:
  "\<forall>b \<in> set (h # map Thr ts). nx' b = nx b \<Longrightarrow>
   \<forall>b \<in> set (h # map Thr ts). pv' b = pv b \<Longrightarrow>
   dll nx' pv' h ts = dll nx pv h ts"
proof -
  assume nx: "\<forall>b \<in> set (h # map Thr ts). nx' b = nx b"
    and pv: "\<forall>b \<in> set (h # map Thr ts). pv' b = pv b"
  have "chain nx' pv' h ts h = chain nx pv h ts h"
    using nx pv by (intro chain_cong) simp_all
  then show ?thesis by (simp add: dll_def)
qed

lemma dll_snoc:
  assumes "dll nx pv (Head c p) ts" and "t \<notin> set ts"
  shows "dll (nx(pv (Head c p) := Thr t, Thr t := Head c p))
             (pv(Thr t := pv (Head c p), Head c p := Thr t)) (Head c p) (ts @ [t])"
proof (cases ts rule: rev_cases)
  case Nil
  with assms show ?thesis by (simp add: dll_def)
next
  case (snoc us u)
  with assms show ?thesis by (auto simp: dll_def chain_append_Cons chain_upd)
qed

lemma dll_Cons:
  assumes "dll nx pv (Head c p) ts" and "t \<notin> set ts"
  shows "dll (nx(Thr t := nx (Head c p), Head c p := Thr t))
             (pv(nx (Head c p) := Thr t, Thr t := Head c p)) (Head c p) (t # ts)"
proof (cases ts)
  case Nil
  with assms show ?thesis by (simp add: dll_def)
next
  case (Cons u us)
  with assms show ?thesis by (auto simp: dll_def chain_upd)
qed

lemma dll_pred:
  "dll nx pv (Head c p) (xs @ t # ys) \<Longrightarrow> pv (Thr t) = last (Head c p # map Thr xs)"
  using chain_last [of nx pv "Head c p" xs "Thr t"] by (simp add: dll_def chain_append_Cons)

lemma dll_succ:
  "dll nx pv (Head c p) (xs @ t # ys) \<Longrightarrow> nx (Thr t) = hd (map Thr ys @ [Head c p])"
  using chain_first [of nx pv "Thr t" ys "Head c p"] by (simp add: dll_def chain_append_Cons)

lemma dll_remove:
  assumes "dll nx pv (Head c p) (xs @ t # ys)"
  shows "dll (nx(pv (Thr t) := nx (Thr t))) (pv(nx (Thr t) := pv (Thr t))) (Head c p) (xs @ ys)"
proof (cases xs rule: rev_cases)
  case Nil
  note xs = Nil
  show ?thesis
  proof (cases ys)
    case Nil
    with xs assms show ?thesis by (simp add: dll_def)
  next
    case (Cons y ys')
    with xs assms show ?thesis by (auto simp: dll_def chain_upd)
  qed
next
  case (snoc us u)
  note xs = snoc
  show ?thesis
  proof (cases ys)
    case Nil
    with xs assms show ?thesis by (auto simp: dll_def chain_append_Cons chain_upd)
  next
    case (Cons y ys')
    with xs assms show ?thesis by (auto simp: dll_def chain_append_Cons chain_upd)
  qed
qed


section \<open>The effect of the run-queue operations on the pointers\<close>

lemma enqueue_rq_queue_effect:
  assumes "valid s th" and "prio s th = p" and "p < length (bitmap (run_tq s c))"
    and "p < length (array (run_tq s c))" and "valid s (prv s (Head c p))"
  shows "\<exists>s'. enqueue_rq_queue s c th = Inr s' \<and>
           nxt s' = (nxt s)(prv s (Head c p) := th, th := Head c p) \<and>
           prv s' = (prv s)(th := prv s (Head c p), Head c p := th) \<and>
           prio s' = prio s \<and>
           bitmap (run_tq s' c) = (bitmap (run_tq s c))[p := True] \<and>
           (\<forall>c'. c' \<noteq> c \<longrightarrow> bitmap (run_tq s' c') = bitmap (run_tq s c')) \<and>
           (\<forall>c'. length (array (run_tq s' c')) = length (array (run_tq s c'))) \<and>
           bindex s' = bindex s"
  using assms by (simp add: enqueue_rq_queue_def)

lemma enqueue_rq_queue_head_effect:
  assumes "valid s th" and "prio s th = p" and "p < length (bitmap (run_tq s c))"
    and "p < length (array (run_tq s c))" and "valid s (nxt s (Head c p))"
  shows "\<exists>s'. enqueue_rq_queue_head s c th = Inr s' \<and>
           nxt s' = (nxt s)(th := nxt s (Head c p), Head c p := th) \<and>
           prv s' = (prv s)(nxt s (Head c p) := th, th := Head c p) \<and>
           prio s' = prio s \<and>
           bitmap (run_tq s' c) = (bitmap (run_tq s c))[p := True] \<and>
           (\<forall>c'. c' \<noteq> c \<longrightarrow> bitmap (run_tq s' c') = bitmap (run_tq s c')) \<and>
           (\<forall>c'. length (array (run_tq s' c')) = length (array (run_tq s c'))) \<and>
           bindex s' = bindex s"
  using assms by (simp add: enqueue_rq_queue_head_def)

lemma dequeue_rq_queue_effect:
  assumes "valid s th" and "prio s th = p" and "p < length (bitmap (run_tq s c))"
    and "p < length (array (run_tq s c))"
    and "valid s (nxt s th)"
    and "a = (if nxt s (Head c p) = th then Head c p else prv s th)" and "valid s a"
    and "nx = (nxt s)(a := nxt s th)"
  shows "\<exists>s'. dequeue_rq_queue s c th = Inr s' \<and>
           nxt s' = nx \<and>
           prv s' = (prv s)(nxt s th := prv s th) \<and>
           prio s' = prio s \<and>
           bitmap (run_tq s' c) =
             (if nx (Head c p) = Head c p then (bitmap (run_tq s c))[p := False]
              else bitmap (run_tq s c)) \<and>
           (\<forall>c'. c' \<noteq> c \<longrightarrow> bitmap (run_tq s' c') = bitmap (run_tq s c')) \<and>
           (\<forall>c'. length (array (run_tq s' c')) = length (array (run_tq s c'))) \<and>
           bindex s' = bindex s"
proof (cases "nxt s (Head c p) = th")
  case True
  with assms show ?thesis by (simp add: dequeue_rq_queue_def)
next
  case False
  with assms show ?thesis by (simp add: dequeue_rq_queue_def)
qed

lemma queue_at_frame:
  assumes "queue_at s c p ts" and "prio s' = prio s"
    and "\<forall>b \<in> set (Head c p # map Thr ts). nxt s' b = nxt s b"
    and "\<forall>b \<in> set (Head c p # map Thr ts). prv s' b = prv s b"
  shows "queue_at s' c p ts"
  using assms dll_cong [of "Head c p" ts "nxt s'" "nxt s" "prv s'" "prv s"]
  by (simp add: queue_at_def)

lemma rq_wf_queue: "rq_wf N s c qs \<Longrightarrow> p < N \<Longrightarrow> queue_at s c p (qs ! p)"
  by (simp add: rq_wf_def)

lemma queue_prio: "queue_at s c p ts \<Longrightarrow> t \<in> set ts \<Longrightarrow> prio s (Thr t) = p"
  by (simp add: queue_at_def)

lemma queue_dll: "queue_at s c p ts \<Longrightarrow> dll (nxt s) (prv s) (Head c p) ts"
  by (simp add: queue_at_def)

lemma queue_tail: "queue_at s c p ts \<Longrightarrow> prv s (Head c p) = last (Head c p # map Thr ts)"
  using chain_last [of "nxt s" "prv s" "Head c p" ts "Head c p"] by (simp add: queue_at_def dll_def)

lemma queue_first: "queue_at s c p ts \<Longrightarrow> nxt s (Head c p) = hd (map Thr ts @ [Head c p])"
  using chain_first [of "nxt s" "prv s" "Head c p" ts "Head c p"] by (simp add: queue_at_def dll_def)

lemma queue_empty_iff: "queue_at s c p ts \<Longrightarrow> nxt s (Head c p) = Head c p \<longleftrightarrow> ts = []"
  using dll_empty_iff [of "nxt s" "prv s" c p ts] by (simp add: queue_at_def)

lemma in_concat_nth: "p < length qs \<Longrightarrow> t \<in> set (qs ! p) \<Longrightarrow> t \<in> set (concat qs)"
  by (auto simp: in_set_conv_nth) (metis nth_mem)

lemma rq_wf_member:
  assumes "rq_wf N s c qs" and "t \<in> set (concat qs)"
  shows "prio s (Thr t) < N \<and> t \<in> set (qs ! prio s (Thr t))"
proof -
  from assms(2) obtain q where "q \<in> set qs" "t \<in> set q" by auto
  then obtain p where p: "p < length qs" "t \<in> set (qs ! p)"
    by (auto simp: in_set_conv_nth)
  with assms(1) have "prio s (Thr t) = p"
    by (auto simp: rq_wf_def dest: queue_prio)
  with p assms(1) show ?thesis by (simp add: rq_wf_def)
qed

lemma other_queue_disjoint:
  assumes "rq_wf N s c qs" and "p < N" and "p' < N" and "p' \<noteq> p"
    and "a \<in> set (Head c p # map Thr (qs ! p))"
  shows "a \<notin> set (Head c p' # map Thr (qs ! p'))"
proof
  assume a': "a \<in> set (Head c p' # map Thr (qs ! p'))"
  from assms(5) a' assms(4) obtain u where u: "a = Thr u" "u \<in> set (qs ! p)" "u \<in> set (qs ! p')"
    by auto
  from rq_wf_queue [OF assms(1,2)] u have "prio s (Thr u) = p" by (simp add: queue_prio)
  moreover from rq_wf_queue [OF assms(1,3)] u have "prio s (Thr u) = p'" by (simp add: queue_prio)
  ultimately show False using assms(4) by simp
qed


section \<open>Well-formedness is preserved\<close>

lemma queue_tail_in: "queue_at s c p ts \<Longrightarrow> prv s (Head c p) \<in> set (Head c p # map Thr ts)"
  using queue_tail [of s c p ts] last_in_set [of "Head c p # map Thr ts"] by simp

lemma queue_first_in: "queue_at s c p ts \<Longrightarrow> nxt s (Head c p) \<in> set (Head c p # map Thr ts)"
  using queue_first [of s c p ts] hd_in_set [of "map Thr ts @ [Head c p]"] by auto

lemma queue_node_valid:
  "a \<in> set (Head c p # map Thr ts) \<Longrightarrow> p < length (array (run_tq s c)) \<Longrightarrow> valid s a"
  by auto

lemma not_queued_other:
  assumes "rq_wf N s c qs" and "p' < N" and "t \<notin> set (concat qs)"
  shows "Thr t \<notin> set (Head c p' # map Thr (qs ! p'))"
  using assms in_concat_nth [of p' qs t] by (auto simp: rq_wf_def)

lemma rq_wf_enqueue:
  assumes wf: "rq_wf N s c qs" and p: "prio s (Thr t) = p" "p < N"
    and nq: "t \<notin> set (concat qs)"
    and nx: "nxt s' = (nxt s)(prv s (Head c p) := Thr t, Thr t := Head c p)"
    and pv: "prv s' = (prv s)(Thr t := prv s (Head c p), Head c p := Thr t)"
    and pr: "prio s' = prio s"
    and len: "length (array (run_tq s' c)) = N" "length (bitmap (run_tq s' c)) = N"
  shows "rq_wf N s' c (qs[p := qs ! p @ [t]])"
proof -
  have lq: "length qs = N" using wf by (simp add: rq_wf_def)
  have "queue_at s' c p' ((qs[p := qs ! p @ [t]]) ! p')" if p': "p' < N" for p'
  proof (cases "p' = p")
    case True
    have q: "queue_at s c p (qs ! p)" by (rule rq_wf_queue [OF wf p(2)])
    have "t \<notin> set (qs ! p)" using not_queued_other [OF wf p(2) nq] by auto
    with q have "dll (nxt s') (prv s') (Head c p) (qs ! p @ [t])"
      unfolding nx pv by (intro dll_snoc) (simp_all add: queue_dll)
    moreover have "\<forall>u \<in> set (qs ! p @ [t]). prio s' (Thr u) = p"
      using q p(1) by (auto simp: pr queue_prio)
    ultimately show ?thesis using True lq p(2) by (simp add: queue_at_def)
  next
    case False
    have q: "queue_at s c p' (qs ! p')" by (rule rq_wf_queue [OF wf p'])
    have tail: "prv s (Head c p) \<notin> set (Head c p' # map Thr (qs ! p'))"
      by (rule other_queue_disjoint [OF wf p(2) p' False])
         (rule queue_tail_in [OF rq_wf_queue [OF wf p(2)]])
    have t: "Thr t \<notin> set (Head c p' # map Thr (qs ! p'))"
      by (rule not_queued_other [OF wf p' nq])
    have "queue_at s' c p' (qs ! p')"
    proof (rule queue_at_frame [OF q pr])
      show "\<forall>b \<in> set (Head c p' # map Thr (qs ! p')). nxt s' b = nxt s b"
      proof
        fix b assume "b \<in> set (Head c p' # map Thr (qs ! p'))"
        with tail t have "b \<noteq> prv s (Head c p)" "b \<noteq> Thr t" by blast+
        then show "nxt s' b = nxt s b" by (simp add: nx)
      qed
      show "\<forall>b \<in> set (Head c p' # map Thr (qs ! p')). prv s' b = prv s b"
        using t False by (auto simp: pv)
    qed
    with False show ?thesis by simp
  qed
  with lq len show ?thesis by (simp add: rq_wf_def)
qed

lemma rq_wf_enqueue_head:
  assumes wf: "rq_wf N s c qs" and p: "prio s (Thr t) = p" "p < N"
    and nq: "t \<notin> set (concat qs)"
    and nx: "nxt s' = (nxt s)(Thr t := nxt s (Head c p), Head c p := Thr t)"
    and pv: "prv s' = (prv s)(nxt s (Head c p) := Thr t, Thr t := Head c p)"
    and pr: "prio s' = prio s"
    and len: "length (array (run_tq s' c)) = N" "length (bitmap (run_tq s' c)) = N"
  shows "rq_wf N s' c (qs[p := t # qs ! p])"
proof -
  have lq: "length qs = N" using wf by (simp add: rq_wf_def)
  have "queue_at s' c p' ((qs[p := t # qs ! p]) ! p')" if p': "p' < N" for p'
  proof (cases "p' = p")
    case True
    have q: "queue_at s c p (qs ! p)" by (rule rq_wf_queue [OF wf p(2)])
    have "t \<notin> set (qs ! p)" using not_queued_other [OF wf p(2) nq] by auto
    with q have "dll (nxt s') (prv s') (Head c p) (t # qs ! p)"
      unfolding nx pv by (intro dll_Cons) (simp_all add: queue_dll)
    moreover have "\<forall>u \<in> set (t # qs ! p). prio s' (Thr u) = p"
      using q p(1) by (auto simp: pr queue_prio)
    ultimately show ?thesis using True lq p(2) by (simp add: queue_at_def)
  next
    case False
    have q: "queue_at s c p' (qs ! p')" by (rule rq_wf_queue [OF wf p'])
    have first: "nxt s (Head c p) \<notin> set (Head c p' # map Thr (qs ! p'))"
      by (rule other_queue_disjoint [OF wf p(2) p' False])
         (rule queue_first_in [OF rq_wf_queue [OF wf p(2)]])
    have t: "Thr t \<notin> set (Head c p' # map Thr (qs ! p'))"
      by (rule not_queued_other [OF wf p' nq])
    have "queue_at s' c p' (qs ! p')"
    proof (rule queue_at_frame [OF q pr])
      show "\<forall>b \<in> set (Head c p' # map Thr (qs ! p')). nxt s' b = nxt s b"
        using t False by (auto simp: nx)
      show "\<forall>b \<in> set (Head c p' # map Thr (qs ! p')). prv s' b = prv s b"
      proof
        fix b assume "b \<in> set (Head c p' # map Thr (qs ! p'))"
        with first t have "b \<noteq> nxt s (Head c p)" "b \<noteq> Thr t" by blast+
        then show "prv s' b = prv s b" by (simp add: pv)
      qed
    qed
    with False show ?thesis by simp
  qed
  with lq len show ?thesis by (simp add: rq_wf_def)
qed

lemma queue_pred_in:
  assumes "queue_at s c p ts" and "t \<in> set ts"
  shows "prv s (Thr t) \<in> set (Head c p # map Thr ts)"
proof -
  from assms(2) obtain xs ys where ts: "ts = xs @ t # ys" by (auto dest: split_list)
  with assms(1) have "dll (nxt s) (prv s) (Head c p) (xs @ t # ys)"
    by (simp add: queue_at_def)
  then have "prv s (Thr t) = last (Head c p # map Thr xs)"
    by (rule dll_pred)
  moreover have "last (Head c p # map Thr xs) \<in> set (Head c p # map Thr xs)"
    by (rule last_in_set) simp
  ultimately show ?thesis using ts by auto
qed

lemma queue_succ_in:
  assumes "queue_at s c p ts" and "t \<in> set ts"
  shows "nxt s (Thr t) \<in> set (Head c p # map Thr ts)"
proof -
  from assms(2) obtain xs ys where ts: "ts = xs @ t # ys" by (auto dest: split_list)
  with assms(1) have "dll (nxt s) (prv s) (Head c p) (xs @ t # ys)"
    by (simp add: queue_at_def)
  then have "nxt s (Thr t) = hd (map Thr ys @ [Head c p])"
    by (rule dll_succ)
  moreover have "hd (map Thr ys @ [Head c p]) \<in> set (map Thr ys @ [Head c p])"
    by (rule hd_in_set) simp
  ultimately show ?thesis using ts by auto
qed

lemma queue_first_is:
  assumes "queue_at s c p ts" and "t \<in> set ts" and "nxt s (Head c p) = Thr t"
  shows "prv s (Thr t) = Head c p"
proof -
  from assms(1,3) have "hd (map Thr ts @ [Head c p]) = Thr t" by (simp add: queue_first)
  with assms(2) obtain ys where "ts = t # ys" by (cases ts) auto
  with assms(1) show ?thesis by (simp add: queue_at_def dll_def)
qed

lemma queue_pred_neq:
  assumes "queue_at s c p ts" and "t \<in> set ts"
  shows "prv s (Thr t) \<noteq> Thr t"
proof -
  from assms(2) obtain xs ys where ts: "ts = xs @ t # ys" by (auto dest: split_list)
  with assms(1) have d: "dll (nxt s) (prv s) (Head c p) (xs @ t # ys)"
    by (simp add: queue_at_def)
  then have "distinct (xs @ t # ys)" by (simp add: dll_def)
  moreover from d have "prv s (Thr t) = last (Head c p # map Thr xs)"
    by (rule dll_pred)
  moreover have "last (Head c p # map Thr xs) \<in> set (Head c p # map Thr xs)"
    by (rule last_in_set) simp
  ultimately show ?thesis by auto
qed

lemma rq_wf_dequeue:
  assumes wf: "rq_wf N s c qs" and p: "p < N" and tq: "t \<in> set (qs ! p)"
    and nx: "nxt s' = (nxt s)(prv s (Thr t) := nxt s (Thr t))"
    and pv: "prv s' = (prv s)(nxt s (Thr t) := prv s (Thr t))"
    and pr: "prio s' = prio s"
    and len: "length (array (run_tq s' c)) = N" "length (bitmap (run_tq s' c)) = N"
  shows "rq_wf N s' c (qs[p := remove1 t (qs ! p)])"
proof -
  have lq: "length qs = N" using wf by (simp add: rq_wf_def)
  have q: "queue_at s c p (qs ! p)" by (rule rq_wf_queue [OF wf p])
  have "queue_at s' c p' ((qs[p := remove1 t (qs ! p)]) ! p')" if p': "p' < N" for p'
  proof (cases "p' = p")
    case True
    from tq obtain xs ys where ts: "qs ! p = xs @ t # ys" by (auto dest: split_list)
    from q ts have d: "dll (nxt s) (prv s) (Head c p) (xs @ t # ys)"
      by (simp add: queue_at_def)
    then have "t \<notin> set xs" by (simp add: dll_def)
    then have r: "remove1 t (qs ! p) = xs @ ys" by (simp add: ts remove1_append)
    have "dll (nxt s') (prv s') (Head c p) (xs @ ys)"
      unfolding nx pv by (rule dll_remove [OF d])
    moreover have "\<forall>u \<in> set (xs @ ys). prio s' (Thr u) = p"
      using q ts by (auto simp: pr queue_at_def)
    ultimately show ?thesis using True lq p r by (simp add: queue_at_def)
  next
    case False
    have q': "queue_at s c p' (qs ! p')" by (rule rq_wf_queue [OF wf p'])
    have a: "prv s (Thr t) \<notin> set (Head c p' # map Thr (qs ! p'))"
      by (rule other_queue_disjoint [OF wf p p' False]) (rule queue_pred_in [OF q tq])
    have b: "nxt s (Thr t) \<notin> set (Head c p' # map Thr (qs ! p'))"
      by (rule other_queue_disjoint [OF wf p p' False]) (rule queue_succ_in [OF q tq])
    have "queue_at s' c p' (qs ! p')"
    proof (rule queue_at_frame [OF q' pr])
      show "\<forall>b \<in> set (Head c p' # map Thr (qs ! p')). nxt s' b = nxt s b"
      proof
        fix x assume "x \<in> set (Head c p' # map Thr (qs ! p'))"
        with a have "x \<noteq> prv s (Thr t)" by blast
        then show "nxt s' x = nxt s x" by (simp add: nx)
      qed
      show "\<forall>b \<in> set (Head c p' # map Thr (qs ! p')). prv s' b = prv s b"
      proof
        fix x assume "x \<in> set (Head c p' # map Thr (qs ! p'))"
        with b have "x \<noteq> nxt s (Thr t)" by blast
        then show "prv s' x = prv s x" by (simp add: pv)
      qed
    qed
    with False show ?thesis by simp
  qed
  with lq len show ?thesis by (simp add: rq_wf_def)
qed

lemma bitmap_ok_iff:
  assumes "rq_wf N s c qs"
  shows "bitmap_ok s c \<longleftrightarrow> (\<forall>p < N. bitmap (run_tq s c) ! p \<longleftrightarrow> qs ! p \<noteq> [])"
proof -
  have "nxt s (Head c p) = Head c p \<longleftrightarrow> qs ! p = []" if "p < N" for p
    using rq_wf_queue [OF assms that] by (rule queue_empty_iff)
  moreover have "length (bitmap (run_tq s c)) = N" using assms by (simp add: rq_wf_def)
  ultimately show ?thesis by (simp add: bitmap_ok_def)
qed


section \<open>The run-queue after boot\<close>

lemma prio_Thr: "prio s (Thr t) = priority (threads s t)"
  by (simp add: prio_def node_def)

lemma nxt_Head: "nxt s (Head c p) = next (array (run_tq s c) ! p)"
  by (simp add: nxt_def node_def)

lemma prv_Head: "prv s (Head c p) = prev (array (run_tq s c) ! p)"
  by (simp add: prv_def node_def)

lemma rq_wf_idle: "rq_wf N (idle_kernel N pr) c (replicate N [])"
  by (simp add: rq_wf_def queue_at_def dll_def idle_kernel_def empty_rq_def nxt_Head prv_Head)

lemma bitmap_ok_idle: "bitmap_ok (idle_kernel N pr) c"
  by (simp add: bitmap_ok_def idle_kernel_def empty_rq_def nxt_Head)

lemma prio_idle: "prio (idle_kernel N pr) (Thr t) = pr t"
  by (simp add: prio_Thr idle_kernel_def)


section \<open>The operations on a well-formed run-queue\<close>

lemma rq_wf_lengths:
  assumes "rq_wf N s c qs"
  shows "length (array (run_tq s c)) = N" and "length (bitmap (run_tq s c)) = N"
    and "length qs = N"
  using assms by (simp_all add: rq_wf_def)

lemma enqueue_rq_queue_correct:
  assumes wf: "rq_wf N s c qs" and bm: "bitmap_ok s c"
    and p: "prio s (Thr t) = p" "p < N" and nq: "t \<notin> set (concat qs)"
  shows "\<exists>s'. enqueue_rq_queue s c (Thr t) = Inr s' \<and> rq_wf N s' c (qs[p := qs ! p @ [t]]) \<and>
           bitmap_ok s' c \<and> prio s' = prio s \<and>
           nxt s' = (nxt s)(prv s (Head c p) := Thr t, Thr t := Head c p) \<and>
           prv s' = (prv s)(Thr t := prv s (Head c p), Head c p := Thr t) \<and>
           (\<forall>c'. c' \<noteq> c \<longrightarrow> bitmap (run_tq s' c') = bitmap (run_tq s c')) \<and>
           (\<forall>c'. length (array (run_tq s' c')) = length (array (run_tq s c'))) \<and>
           bindex s' = bindex s"
proof -
  note len = rq_wf_lengths [OF wf]
  have q: "queue_at s c p (qs ! p)" by (rule rq_wf_queue [OF wf p(2)])
  have v: "valid s (prv s (Head c p))"
    by (rule queue_node_valid [OF queue_tail_in [OF q]]) (simp add: len p(2))
  from enqueue_rq_queue_effect [of s "Thr t" p c] p len v
  obtain s' where s': "enqueue_rq_queue s c (Thr t) = Inr s'"
    "nxt s' = (nxt s)(prv s (Head c p) := Thr t, Thr t := Head c p)"
    "prv s' = (prv s)(Thr t := prv s (Head c p), Head c p := Thr t)"
    "prio s' = prio s"
    "bitmap (run_tq s' c) = (bitmap (run_tq s c))[p := True]"
    "\<forall>c'. c' \<noteq> c \<longrightarrow> bitmap (run_tq s' c') = bitmap (run_tq s c')"
    "\<forall>c'. length (array (run_tq s' c')) = length (array (run_tq s c'))"
    "bindex s' = bindex s"
    by auto
  have wf': "rq_wf N s' c (qs[p := qs ! p @ [t]])"
    using s' len by (intro rq_wf_enqueue [OF wf p nq]) simp_all
  have "bitmap_ok s' c"
    using bm len p(2)
    by (simp add: bitmap_ok_iff [OF wf'] bitmap_ok_iff [OF wf] s'(5) nth_list_update)
  with s' wf' show ?thesis by blast
qed

lemma enqueue_rq_queue_head_correct:
  assumes wf: "rq_wf N s c qs" and bm: "bitmap_ok s c"
    and p: "prio s (Thr t) = p" "p < N" and nq: "t \<notin> set (concat qs)"
  shows "\<exists>s'. enqueue_rq_queue_head s c (Thr t) = Inr s' \<and> rq_wf N s' c (qs[p := t # qs ! p]) \<and>
           bitmap_ok s' c \<and> prio s' = prio s \<and>
           nxt s' = (nxt s)(Thr t := nxt s (Head c p), Head c p := Thr t) \<and>
           prv s' = (prv s)(nxt s (Head c p) := Thr t, Thr t := Head c p) \<and>
           (\<forall>c'. c' \<noteq> c \<longrightarrow> bitmap (run_tq s' c') = bitmap (run_tq s c')) \<and>
           (\<forall>c'. length (array (run_tq s' c')) = length (array (run_tq s c'))) \<and>
           bindex s' = bindex s"
proof -
  note len = rq_wf_lengths [OF wf]
  have q: "queue_at s c p (qs ! p)" by (rule rq_wf_queue [OF wf p(2)])
  have v: "valid s (nxt s (Head c p))"
    by (rule queue_node_valid [OF queue_first_in [OF q]]) (simp add: len p(2))
  from enqueue_rq_queue_head_effect [of s "Thr t" p c] p len v
  obtain s' where s': "enqueue_rq_queue_head s c (Thr t) = Inr s'"
    "nxt s' = (nxt s)(Thr t := nxt s (Head c p), Head c p := Thr t)"
    "prv s' = (prv s)(nxt s (Head c p) := Thr t, Thr t := Head c p)"
    "prio s' = prio s"
    "bitmap (run_tq s' c) = (bitmap (run_tq s c))[p := True]"
    "\<forall>c'. c' \<noteq> c \<longrightarrow> bitmap (run_tq s' c') = bitmap (run_tq s c')"
    "\<forall>c'. length (array (run_tq s' c')) = length (array (run_tq s c'))"
    "bindex s' = bindex s"
    by auto
  have wf': "rq_wf N s' c (qs[p := t # qs ! p])"
    using s' len by (intro rq_wf_enqueue_head [OF wf p nq]) simp_all
  have "bitmap_ok s' c"
    using bm len p(2)
    by (simp add: bitmap_ok_iff [OF wf'] bitmap_ok_iff [OF wf] s'(5) nth_list_update)
  with s' wf' show ?thesis by blast
qed

lemma dequeue_rq_queue_correct:
  assumes wf: "rq_wf N s c qs" and bm: "bitmap_ok s c"
    and p: "prio s (Thr t) = p" and tq: "t \<in> set (concat qs)"
  shows "\<exists>s'. dequeue_rq_queue s c (Thr t) = Inr s' \<and>
           rq_wf N s' c (qs[p := remove1 t (qs ! p)]) \<and> bitmap_ok s' c \<and> prio s' = prio s \<and>
           nxt s' = (nxt s)(prv s (Thr t) := nxt s (Thr t)) \<and>
           prv s' = (prv s)(nxt s (Thr t) := prv s (Thr t)) \<and>
           (\<forall>c'. c' \<noteq> c \<longrightarrow> bitmap (run_tq s' c') = bitmap (run_tq s c')) \<and>
           (\<forall>c'. length (array (run_tq s' c')) = length (array (run_tq s c'))) \<and>
           bindex s' = bindex s"
proof -
  note len = rq_wf_lengths [OF wf]
  from rq_wf_member [OF wf tq] p have pN: "p < N" and tp: "t \<in> set (qs ! p)" by simp_all
  have q: "queue_at s c p (qs ! p)" by (rule rq_wf_queue [OF wf pN])
  have v1: "valid s (nxt s (Thr t))"
    by (rule queue_node_valid [OF queue_succ_in [OF q tp]]) (simp add: len pN)
  have v2: "valid s (prv s (Thr t))"
    by (rule queue_node_valid [OF queue_pred_in [OF q tp]]) (simp add: len pN)
  have a: "(if nxt s (Head c p) = Thr t then Head c p else prv s (Thr t)) = prv s (Thr t)"
    using queue_first_is [OF q tp] by simp
  from dequeue_rq_queue_effect [of s "Thr t" p c "prv s (Thr t)" "(nxt s)(prv s (Thr t) := nxt s (Thr t))"]
    p len pN v1 v2 a
  obtain s' where s': "dequeue_rq_queue s c (Thr t) = Inr s'"
    "nxt s' = (nxt s)(prv s (Thr t) := nxt s (Thr t))"
    "prv s' = (prv s)(nxt s (Thr t) := prv s (Thr t))"
    "prio s' = prio s"
    "bitmap (run_tq s' c) =
       (if nxt s' (Head c p) = Head c p then (bitmap (run_tq s c))[p := False]
        else bitmap (run_tq s c))"
    "\<forall>c'. c' \<noteq> c \<longrightarrow> bitmap (run_tq s' c') = bitmap (run_tq s c')"
    "\<forall>c'. length (array (run_tq s' c')) = length (array (run_tq s c'))"
    "bindex s' = bindex s"
    by auto
  have wf': "rq_wf N s' c (qs[p := remove1 t (qs ! p)])"
    using s' len by (intro rq_wf_dequeue [OF wf pN tp]) (simp_all split: if_splits)
  have e: "nxt s' (Head c p) = Head c p \<longleftrightarrow> remove1 t (qs ! p) = []"
    using queue_empty_iff [OF rq_wf_queue [OF wf' pN]] len pN by simp
  have "qs ! p \<noteq> []" using tp by auto
  then have "bitmap_ok s' c"
    using bm len pN
    by (simp add: bitmap_ok_iff [OF wf'] bitmap_ok_iff [OF wf] s'(5) e nth_list_update)
  with s' wf' show ?thesis by blast
qed

lemma run_op_correct:
  assumes "rq_wf N s c qs" and "bitmap_ok s c" and "pre_op (\<lambda>t. prio s (Thr t)) qs x"
  shows "\<exists>s'. run_op s c x = Inr s' \<and> rq_wf N s' c (lists_after (\<lambda>t. prio s (Thr t)) qs x) \<and>
           bitmap_ok s' c \<and> prio s' = prio s"
proof (cases x)
  case (Enqueue_head t)
  with assms show ?thesis
    using enqueue_rq_queue_head_correct [of N s c qs t "prio s (Thr t)"] rq_wf_lengths [of N s c qs]
    by auto
next
  case (Enqueue t)
  with assms show ?thesis
    using enqueue_rq_queue_correct [of N s c qs t "prio s (Thr t)"] rq_wf_lengths [of N s c qs]
    by auto
next
  case (Dequeue t)
  with assms show ?thesis
    using dequeue_rq_queue_correct [of N s c qs t "prio s (Thr t)"]
    by auto
qed

lemma run_ops_correct:
  assumes "rq_wf N s c qs" and "bitmap_ok s c" and "pre_ops (\<lambda>t. prio s (Thr t)) qs ops"
  shows "\<exists>s'. run_ops s c ops = Inr s' \<and>
           rq_wf N s' c (foldl (lists_after (\<lambda>t. prio s (Thr t))) qs ops) \<and>
           bitmap_ok s' c \<and> prio s' = prio s"
  using assms
proof (induction ops arbitrary: s qs)
  case Nil
  then show ?case by simp
next
  case (Cons x ops)
  let ?pr = "\<lambda>t. prio s (Thr t)"
  from Cons.prems have px: "pre_op ?pr qs x" and pops: "pre_ops ?pr (lists_after ?pr qs x) ops"
    by simp_all
  from run_op_correct [OF Cons.prems(1,2) px]
  obtain s1 where s1: "run_op s c x = Inr s1" "rq_wf N s1 c (lists_after ?pr qs x)"
    "bitmap_ok s1 c" "prio s1 = prio s"
    by blast
  from pops s1(4) have "pre_ops (\<lambda>t. prio s1 (Thr t)) (lists_after ?pr qs x) ops" by simp
  from Cons.IH [OF s1(2,3) this] s1 show ?case by simp
qed


section \<open>Initialisation\<close>

lemma init_rq_loop_effect:
  "N \<le> length (array (run_tq s cpu)) \<Longrightarrow>
   \<exists>s'. init_rq_loop N s cpu i = Inr s' \<and>
     nxt s' = (\<lambda>a. if a \<in> Head cpu ` {i..<N} then a else nxt s a) \<and>
     prv s' = (\<lambda>a. if a \<in> Head cpu ` {i..<N} then a else prv s a) \<and>
     prio s' = prio s \<and>
     (\<forall>c. bitmap (run_tq s' c) = bitmap (run_tq s c)) \<and>
     (\<forall>c. length (array (run_tq s' c)) = length (array (run_tq s c))) \<and>
     bindex s' = bindex s"
proof (induction N s cpu i rule: init_rq_loop.induct)
  case (1 N s cpu i)
  show ?case
  proof (cases "i < N")
    case False
    then show ?thesis by (subst init_rq_loop.simps) simp
  next
    case True
    let ?h = "Head cpu i"
    let ?s2 = "upd_prev (upd_next s ?h ?h) ?h ?h"
    from True "1.prems" have v: "valid s ?h" by simp
    have "N \<le> length (array (run_tq ?s2 cpu))" using "1.prems" by simp
    from "1.IH" [OF True this]
    obtain s' where s': "init_rq_loop N ?s2 cpu (Suc i) = Inr s'"
      "nxt s' = (\<lambda>a. if a \<in> Head cpu ` {Suc i..<N} then a else nxt ?s2 a)"
      "prv s' = (\<lambda>a. if a \<in> Head cpu ` {Suc i..<N} then a else prv ?s2 a)"
      "prio s' = prio ?s2"
      "\<forall>c. bitmap (run_tq s' c) = bitmap (run_tq ?s2 c)"
      "\<forall>c. length (array (run_tq s' c)) = length (array (run_tq ?s2 c))"
      "bindex s' = bindex ?s2"
      by blast
    have set: "{i..<N} = insert i {Suc i..<N}" using True by auto
    have "init_rq_loop N s cpu i = Inr s'"
      using True v s'(1) by (subst init_rq_loop.simps) simp
    moreover have "nxt s' = (\<lambda>a. if a \<in> Head cpu ` {i..<N} then a else nxt s a)"
      using v by (auto simp: s'(2) set)
    moreover have "prv s' = (\<lambda>a. if a \<in> Head cpu ` {i..<N} then a else prv s a)"
      using v by (auto simp: s'(3) set)
    ultimately show ?thesis using s'(4-7) by simp
  qed
qed

lemma threads_eqI:
  "nxt s' (Thr t) = nxt s (Thr t) \<Longrightarrow> prv s' (Thr t) = prv s (Thr t) \<Longrightarrow>
   prio s' (Thr t) = prio s (Thr t) \<Longrightarrow> threads s' t = threads s t"
  by (simp add: nxt_def prv_def prio_def node_def)

lemma init_rq_effect:
  assumes "length (array (run_tq s cpu)) = N"
  shows "\<exists>s'. init_rq N s cpu = Inr s' \<and>
     (\<forall>i < N. nxt s' (Head cpu i) = Head cpu i \<and> prv s' (Head cpu i) = Head cpu i) \<and>
     (\<forall>c. bitmap (run_tq s' c) = bitmap (run_tq s c)) \<and>
     (\<forall>c. length (array (run_tq s' c)) = length (array (run_tq s c))) \<and>
     threads s' = threads s \<and> bindex s' = bindex s"
proof -
  from assms have "N \<le> length (array (run_tq s cpu))" by simp
  from init_rq_loop_effect [OF this, of 0]
  obtain s' where s': "init_rq_loop N s cpu 0 = Inr s'"
    "nxt s' = (\<lambda>a. if a \<in> Head cpu ` {0..<N} then a else nxt s a)"
    "prv s' = (\<lambda>a. if a \<in> Head cpu ` {0..<N} then a else prv s a)"
    "prio s' = prio s"
    "\<forall>c. bitmap (run_tq s' c) = bitmap (run_tq s c)"
    "\<forall>c. length (array (run_tq s' c)) = length (array (run_tq s c))"
    "bindex s' = bindex s"
    by blast
  have "threads s' t = threads s t" for t
    by (rule threads_eqI) (auto simp: s'(2,3,4))
  then have "threads s' = threads s" by (rule ext)
  with s' show ?thesis by (simp add: init_rq_def)
qed

section \<open>Find-first-bit and pick-next\<close>

lemma find_first_bit_le: "find_first_bit bm \<le> length bm"
  by (simp add: find_first_bit_def length_takeWhile_le)

lemma find_first_bit_before: "j < find_first_bit bm \<Longrightarrow> \<not> bm ! j"
  unfolding find_first_bit_def
  using nth_mem [of j "takeWhile Not bm"] takeWhile_nth [of j Not bm]
  by (auto dest: set_takeWhileD)

lemma find_first_bit_at: "find_first_bit bm < length bm \<Longrightarrow> bm ! find_first_bit bm"
  unfolding find_first_bit_def using nth_length_takeWhile [of Not bm] by simp

lemma find_first_bit_none: "\<forall>p < length bm. \<not> bm ! p \<Longrightarrow> find_first_bit bm = length bm"
  using find_first_bit_le [of bm] find_first_bit_at [of bm] by (cases "find_first_bit bm < length bm") auto

lemma find_first_bit_lowest:
  assumes "p < length bm" and "bm ! p" and "\<forall>q < p. \<not> bm ! q"
  shows "find_first_bit bm = p"
proof (rule antisym)
  show "find_first_bit bm \<le> p"
    using assms(2) find_first_bit_before [of p bm] by (auto simp: not_less [symmetric])
  then have "find_first_bit bm < length bm" using assms(1) by simp
  then have "bm ! find_first_bit bm" by (rule find_first_bit_at)
  with assms(3) show "p \<le> find_first_bit bm" by (auto simp: not_less [symmetric])
qed

lemma pick_next_task_effect:
  assumes "length (array (run_tq s cpu)) = N" and "length (bitmap (run_tq s cpu)) = N"
    and "b = find_first_bit (bitmap (run_tq s cpu))"
  shows "pick_next_task N s cpu =
           Inr (if b = N then Null else nxt s (Head cpu b), s\<lparr>bindex := (bindex s)(cpu := b)\<rparr>)"
proof -
  have n: "nxt (s\<lparr>bindex := f\<rparr>) = nxt s" for f
    by (rule ext) (simp add: nxt_def node_def split: ptr.split)
  have "b \<le> N" using assms(2,3) find_first_bit_le [of "bitmap (run_tq s cpu)"] by simp
  then show ?thesis
    using assms by (auto simp: pick_next_task_def Let_def n)
qed

section \<open>The scenario of the spec\<close>

lemma scenario_kernel_reached:
  "run_ops (idle_kernel 4 scenario_prio) 0 [Enqueue 1, Enqueue 2, Enqueue 3] = Inr scenario_kernel"
  apply (simp add: enqueue_rq_queue_def idle_kernel_def empty_rq_def scenario_prio_def
      prio_def prv_def node_def numeral_eq_Suc upd_next_def upd_prev_def put_bitmap_def put_def
      scenario_kernel_def fun_eq_iff)
  done

section \<open>Operations without their preconditions\<close>

lemma enqueue_out_of_range:
  assumes "valid s th" and "length (bitmap (run_tq s rq)) \<le> prio s th"
  shows "enqueue_rq_queue s rq th = Inl (OutOfBounds (prio s th))"
    and "enqueue_rq_queue_head s rq th = Inl (OutOfBounds (prio s th))"
  using assms
  by (simp_all add: enqueue_rq_queue_def enqueue_rq_queue_head_def set_bit_rq_def)

lemma enqueue_returns:
  assumes wf: "rq_wf N s rq qs" and p: "prio s (Thr t) < N"
  shows "\<exists>s'. enqueue_rq_queue s rq (Thr t) = Inr s'"
    and "\<exists>s'. enqueue_rq_queue_head s rq (Thr t) = Inr s'"
proof -
  let ?p = "prio s (Thr t)"
  note len = rq_wf_lengths [OF wf]
  have q: "queue_at s rq ?p (qs ! ?p)" by (rule rq_wf_queue [OF wf p])
  have v1: "valid s (prv s (Head rq ?p))"
    by (rule queue_node_valid [OF queue_tail_in [OF q]]) (simp add: len p)
  have v2: "valid s (nxt s (Head rq ?p))"
    by (rule queue_node_valid [OF queue_first_in [OF q]]) (simp add: len p)
  show "\<exists>s'. enqueue_rq_queue s rq (Thr t) = Inr s'"
    using enqueue_rq_queue_effect [of s "Thr t" ?p rq] p len v1 by auto
  show "\<exists>s'. enqueue_rq_queue_head s rq (Thr t) = Inr s'"
    using enqueue_rq_queue_head_effect [of s "Thr t" ?p rq] p len v2 by auto
qed

lemma scenario_kernel_wf:
  shows "rq_wf 4 scenario_kernel 0 [[2], [], [1, 3], []]" and "bitmap_ok scenario_kernel 0"
proof -
  let ?k = "idle_kernel 4 scenario_prio"
  have "pre_ops (\<lambda>t. prio ?k (Thr t)) (replicate 4 []) [Enqueue 1, Enqueue 2, Enqueue 3]"
    by (simp add: prio_idle scenario_prio_def numeral_eq_Suc)
  from run_ops_correct [OF rq_wf_idle bitmap_ok_idle this]
  obtain s' where "run_ops ?k 0 [Enqueue 1, Enqueue 2, Enqueue 3] = Inr s'"
    "rq_wf 4 s' 0 (foldl (lists_after (\<lambda>t. prio ?k (Thr t))) (replicate 4 [])
         [Enqueue 1, Enqueue 2, Enqueue 3])" "bitmap_ok s' 0"
    by blast
  moreover from this(1) have "s' = scenario_kernel"
    unfolding scenario_kernel_reached by simp
  ultimately show "rq_wf 4 scenario_kernel 0 [[2], [], [1, 3], []]" and "bitmap_ok scenario_kernel 0"
    by (simp_all add: prio_idle scenario_prio_def numeral_eq_Suc)
qed

lemma nxt_Thr: "nxt s (Thr t) = next (threads s t)"
  by (simp add: nxt_def node_def)

lemma prv_Thr: "prv s (Thr t) = prev (threads s t)"
  by (simp add: prv_def node_def)

lemma dequeue_returns:
  assumes wf: "rq_wf N s c qs" and p: "prio s (Thr t) < N"
    and v: "valid s (nxt s (Thr t))" "valid s (prv s (Thr t))"
  shows "\<exists>s'. dequeue_rq_queue s c (Thr t) = Inr s'"
proof -
  let ?p = "prio s (Thr t)"
  let ?a = "if nxt s (Head c ?p) = Thr t then Head c ?p else prv s (Thr t)"
  note len = rq_wf_lengths [OF wf]
  have "valid s ?a" using v p len by simp
  with dequeue_rq_queue_effect [of s "Thr t" ?p c ?a "(nxt s)(?a := nxt s (Thr t))"] p len v
  show ?thesis by auto
qed

section \<open>Enqueue followed by dequeue\<close>

lemma node_eqI:
  "nxt s' a = nxt s a \<Longrightarrow> prv s' a = prv s a \<Longrightarrow> prio s' a = prio s a \<Longrightarrow>
   node s' a = node s a"
  by (simp add: nxt_def prv_def prio_def)

lemma run_tq_eqI:
  assumes len: "\<forall>c. length (array (run_tq s' c)) = length (array (run_tq s c))"
    and bm: "\<forall>c. bitmap (run_tq s' c) = bitmap (run_tq s c)"
    and nd: "\<forall>c i. node s' (Head c i) = node s (Head c i)"
  shows "run_tq s' = run_tq s"
proof
  fix c
  have "array (run_tq s' c) = array (run_tq s c)"
  proof (rule nth_equalityI)
    show "length (array (run_tq s' c)) = length (array (run_tq s c))" using len by simp
    fix i
    from nd have "node s' (Head c i) = node s (Head c i)" by simp
    then show "array (run_tq s' c) ! i = array (run_tq s c) ! i" by (simp add: node_def)
  qed
  with bm show "run_tq s' c = run_tq s c" by simp
qed

lemma queue_tail_next: "queue_at s c p ts \<Longrightarrow> nxt s (prv s (Head c p)) = Head c p"
  by (cases ts rule: rev_cases) (simp_all add: queue_at_def dll_def chain_append_Cons)

lemma queue_first_prev: "queue_at s c p ts \<Longrightarrow> prv s (nxt s (Head c p)) = Head c p"
  by (cases ts) (simp_all add: queue_at_def dll_def)

lemma bitmap_eq_of_ok:
  assumes "rq_wf N s c qs" and "bitmap_ok s c" and "rq_wf N s' c qs" and "bitmap_ok s' c"
  shows "bitmap (run_tq s' c) = bitmap (run_tq s c)"
proof (rule nth_equalityI)
  show "length (bitmap (run_tq s' c)) = length (bitmap (run_tq s c))"
    using assms(1,3) by (simp add: rq_wf_lengths)
  fix i assume "i < length (bitmap (run_tq s' c))"
  then have "i < N" using assms(3) by (simp add: rq_wf_lengths)
  then show "bitmap (run_tq s' c) ! i = bitmap (run_tq s c) ! i"
    using assms by (simp add: bitmap_ok_iff)
qed

lemma round_trip_tail:
  assumes wf: "rq_wf N s c qs" and bm: "bitmap_ok s c"
    and p: "prio s (Thr t) = p" "p < N" and nq: "t \<notin> set (concat qs)"
  shows "\<exists>s1 s2. enqueue_rq_queue s c (Thr t) = Inr s1 \<and>
           dequeue_rq_queue s1 c (Thr t) = Inr s2 \<and>
           run_tq s2 = run_tq s \<and> (\<forall>u. u \<noteq> t \<longrightarrow> threads s2 u = threads s u) \<and>
           bindex s2 = bindex s \<and> prio s2 (Thr t) = p \<and>
           nxt s2 (Thr t) = Head c p \<and> prv s2 (Thr t) = prv s (Head c p)"
proof -
  let ?h = "Head c p"
  let ?l = "prv s ?h"
  let ?qs1 = "qs[p := qs ! p @ [t]]"
  note len = rq_wf_lengths [OF wf]
  have q: "queue_at s c p (qs ! p)" by (rule rq_wf_queue [OF wf p(2)])
  have tl: "?l \<noteq> Thr t"
    using queue_tail_in [OF q] not_queued_other [OF wf p(2) nq] by auto
  from enqueue_rq_queue_correct [OF wf bm p nq]
  obtain s1 where s1: "enqueue_rq_queue s c (Thr t) = Inr s1" "rq_wf N s1 c ?qs1"
    "bitmap_ok s1 c" "prio s1 = prio s"
    "nxt s1 = (nxt s)(?l := Thr t, Thr t := ?h)"
    "prv s1 = (prv s)(Thr t := ?l, ?h := Thr t)"
    "\<forall>c'. c' \<noteq> c \<longrightarrow> bitmap (run_tq s1 c') = bitmap (run_tq s c')"
    "\<forall>c'. length (array (run_tq s1 c')) = length (array (run_tq s c'))"
    "bindex s1 = bindex s"
    by blast
  have t1: "t \<in> set (concat ?qs1)"
    using len p(2) by (intro in_concat_nth [of p]) simp_all
  have p1: "prio s1 (Thr t) = p" using s1(4) p(1) by simp
  from dequeue_rq_queue_correct [OF s1(2,3) p1 t1]
  obtain s2 where s2: "dequeue_rq_queue s1 c (Thr t) = Inr s2"
    "rq_wf N s2 c (?qs1[p := remove1 t (?qs1 ! p)])"
    "bitmap_ok s2 c" "prio s2 = prio s1"
    "nxt s2 = (nxt s1)(prv s1 (Thr t) := nxt s1 (Thr t))"
    "prv s2 = (prv s1)(nxt s1 (Thr t) := prv s1 (Thr t))"
    "\<forall>c'. c' \<noteq> c \<longrightarrow> bitmap (run_tq s2 c') = bitmap (run_tq s1 c')"
    "\<forall>c'. length (array (run_tq s2 c')) = length (array (run_tq s1 c'))"
    "bindex s2 = bindex s1"
    by blast
  have "t \<notin> set (qs ! p)" using not_queued_other [OF wf p(2) nq] by auto
  then have "?qs1[p := remove1 t (?qs1 ! p)] = qs"
    using len p(2) by (simp add: remove1_append)
  with s2(2) have wf2: "rq_wf N s2 c qs" by simp
  have n1: "nxt s1 (Thr t) = ?h" and v1: "prv s1 (Thr t) = ?l"
    by (simp_all add: s1(5,6))
  have nx: "nxt s2 = (nxt s)(Thr t := ?h)"
    using tl queue_tail_next [OF q] by (auto simp: s2(5) s1(5) n1 v1 fun_eq_iff)
  have pv: "prv s2 = (prv s)(Thr t := ?l)"
    by (auto simp: s2(6) s1(6) n1 v1 fun_eq_iff)
  have pr: "prio s2 = prio s" by (simp add: s2(4) s1(4))
  have bmc: "bitmap (run_tq s2 c') = bitmap (run_tq s c')" for c'
    using bitmap_eq_of_ok [OF wf bm wf2 s2(3)] s2(7) s1(7) by (cases "c' = c") simp_all
  have "run_tq s2 = run_tq s"
  proof (rule run_tq_eqI)
    show "\<forall>c. length (array (run_tq s2 c)) = length (array (run_tq s c))"
      by (simp add: s2(8) s1(8))
    show "\<forall>c. bitmap (run_tq s2 c) = bitmap (run_tq s c)" using bmc by simp
    show "\<forall>c i. node s2 (Head c i) = node s (Head c i)"
      by (intro allI node_eqI) (simp_all add: nx pv pr)
  qed
  moreover have "threads s2 u = threads s u" if "u \<noteq> t" for u
    using that by (intro threads_eqI) (simp_all add: nx pv pr)
  ultimately show ?thesis
    using s1(1) s2(1) by (simp add: nx pv pr p(1) s2(9) s1(9))
qed

lemma round_trip_head:
  assumes wf: "rq_wf N s c qs" and bm: "bitmap_ok s c"
    and p: "prio s (Thr t) = p" "p < N" and nq: "t \<notin> set (concat qs)"
  shows "\<exists>s1 s2. enqueue_rq_queue_head s c (Thr t) = Inr s1 \<and>
           dequeue_rq_queue s1 c (Thr t) = Inr s2 \<and>
           run_tq s2 = run_tq s \<and> (\<forall>u. u \<noteq> t \<longrightarrow> threads s2 u = threads s u) \<and>
           bindex s2 = bindex s \<and> prio s2 (Thr t) = p \<and>
           nxt s2 (Thr t) = nxt s (Head c p) \<and> prv s2 (Thr t) = Head c p"
proof -
  let ?h = "Head c p"
  let ?f = "nxt s ?h"
  let ?qs1 = "qs[p := t # qs ! p]"
  note len = rq_wf_lengths [OF wf]
  have q: "queue_at s c p (qs ! p)" by (rule rq_wf_queue [OF wf p(2)])
  have tf: "?f \<noteq> Thr t"
    using queue_first_in [OF q] not_queued_other [OF wf p(2) nq] by auto
  from enqueue_rq_queue_head_correct [OF wf bm p nq]
  obtain s1 where s1: "enqueue_rq_queue_head s c (Thr t) = Inr s1" "rq_wf N s1 c ?qs1"
    "bitmap_ok s1 c" "prio s1 = prio s"
    "nxt s1 = (nxt s)(Thr t := ?f, ?h := Thr t)"
    "prv s1 = (prv s)(?f := Thr t, Thr t := ?h)"
    "\<forall>c'. c' \<noteq> c \<longrightarrow> bitmap (run_tq s1 c') = bitmap (run_tq s c')"
    "\<forall>c'. length (array (run_tq s1 c')) = length (array (run_tq s c'))"
    "bindex s1 = bindex s"
    by blast
  have t1: "t \<in> set (concat ?qs1)"
    using len p(2) by (intro in_concat_nth [of p]) simp_all
  have p1: "prio s1 (Thr t) = p" using s1(4) p(1) by simp
  from dequeue_rq_queue_correct [OF s1(2,3) p1 t1]
  obtain s2 where s2: "dequeue_rq_queue s1 c (Thr t) = Inr s2"
    "rq_wf N s2 c (?qs1[p := remove1 t (?qs1 ! p)])"
    "bitmap_ok s2 c" "prio s2 = prio s1"
    "nxt s2 = (nxt s1)(prv s1 (Thr t) := nxt s1 (Thr t))"
    "prv s2 = (prv s1)(nxt s1 (Thr t) := prv s1 (Thr t))"
    "\<forall>c'. c' \<noteq> c \<longrightarrow> bitmap (run_tq s2 c') = bitmap (run_tq s1 c')"
    "\<forall>c'. length (array (run_tq s2 c')) = length (array (run_tq s1 c'))"
    "bindex s2 = bindex s1"
    by blast
  have "?qs1[p := remove1 t (?qs1 ! p)] = qs"
    using len p(2) by simp
  with s2(2) have wf2: "rq_wf N s2 c qs" by simp
  have n1: "nxt s1 (Thr t) = ?f" and v1: "prv s1 (Thr t) = ?h"
    by (simp_all add: s1(5,6))
  have nx: "nxt s2 = (nxt s)(Thr t := ?f)"
    by (auto simp: s2(5) s1(5) n1 v1 fun_eq_iff)
  have pv: "prv s2 = (prv s)(Thr t := ?h)"
    using tf queue_first_prev [OF q] by (auto simp: s2(6) s1(6) n1 v1 fun_eq_iff)
  have pr: "prio s2 = prio s" by (simp add: s2(4) s1(4))
  have bmc: "bitmap (run_tq s2 c') = bitmap (run_tq s c')" for c'
    using bitmap_eq_of_ok [OF wf bm wf2 s2(3)] s2(7) s1(7) by (cases "c' = c") simp_all
  have "run_tq s2 = run_tq s"
  proof (rule run_tq_eqI)
    show "\<forall>c. length (array (run_tq s2 c)) = length (array (run_tq s c))"
      by (simp add: s2(8) s1(8))
    show "\<forall>c. bitmap (run_tq s2 c) = bitmap (run_tq s c)" using bmc by simp
    show "\<forall>c i. node s2 (Head c i) = node s (Head c i)"
      by (intro allI node_eqI) (simp_all add: nx pv pr)
  qed
  moreover have "threads s2 u = threads s u" if "u \<noteq> t" for u
    using that by (intro threads_eqI) (simp_all add: nx pv pr)
  ultimately show ?thesis
    using s1(1) s2(1) by (simp add: nx pv pr p(1) s2(9) s1(9))
qed

section \<open>Pick-next and dequeue on a well-formed run-queue\<close>

lemma views_bindex [simp]:
  "nxt (s\<lparr>bindex := f\<rparr>) = nxt s" "prv (s\<lparr>bindex := f\<rparr>) = prv s"
  "prio (s\<lparr>bindex := f\<rparr>) = prio s"
  by (rule ext, simp add: nxt_def prv_def prio_def node_def split: ptr.split)+

lemma rq_wf_bindex [simp]: "rq_wf N (s\<lparr>bindex := f\<rparr>) c qs = rq_wf N s c qs"
  by (simp add: rq_wf_def queue_at_def)

lemma bitmap_ok_bindex [simp]: "bitmap_ok (s\<lparr>bindex := f\<rparr>) c = bitmap_ok s c"
  by (simp add: bitmap_ok_def)

lemma concat_first:
  "concat qs = t # rest \<Longrightarrow>
   \<exists>j q. j < length qs \<and> (\<forall>i < j. qs ! i = []) \<and> qs ! j = t # q \<and>
         rest = q @ concat (drop (Suc j) qs)"
proof (induction qs)
  case Nil
  then show ?case by simp
next
  case (Cons q0 qs)
  show ?case
  proof (cases q0)
    case Nil
    with Cons.prems have "concat qs = t # rest" by simp
    from Cons.IH [OF this] obtain j q where j: "j < length qs" "\<forall>i < j. qs ! i = []"
      "qs ! j = t # q" "rest = q @ concat (drop (Suc j) qs)"
      by blast
    have "\<forall>i < Suc j. (q0 # qs) ! i = []"
      using Nil j(2) by (auto simp: less_Suc_eq_0_disj)
    with j show ?thesis
      by (intro exI [of _ "Suc j"] exI [of _ q]) simp
  next
    case (Cons x q)
    with Cons.prems show ?thesis
      by (intro exI [of _ 0] exI [of _ q]) simp
  qed
qed

lemma concat_take_empty: "j \<le> length qs \<Longrightarrow> \<forall>i < j. qs ! i = [] \<Longrightarrow> concat (take j qs) = []"
  by (auto simp: in_set_conv_nth)

lemma concat_update_first:
  assumes "j < length qs" and "\<forall>i < j. qs ! i = []"
  shows "concat (qs[j := q]) = q @ concat (drop (Suc j) qs)"
proof -
  have "qs[j := q] = take j qs @ q # drop (Suc j) qs"
    using assms(1) by (rule upd_conv_take_nth_drop)
  moreover have "concat (take j qs) = []"
    using assms by (intro concat_take_empty) simp_all
  ultimately show ?thesis by simp
qed

lemma pick_next_task_wf:
  assumes wf: "rq_wf N s c qs" and bm: "bitmap_ok s c"
  shows "\<exists>b. pick_next_task N s c =
           Inr (case concat qs of [] \<Rightarrow> Null | t # _ \<Rightarrow> Thr t, s\<lparr>bindex := (bindex s)(c := b)\<rparr>)"
proof -
  let ?bm = "bitmap (run_tq s c)"
  note len = rq_wf_lengths [OF wf]
  have bit: "?bm ! p \<longleftrightarrow> qs ! p \<noteq> []" if "p < N" for p
    using bm that by (simp add: bitmap_ok_iff [OF wf])
  have pick: "pick_next_task N s c =
      Inr (if find_first_bit ?bm = N then Null else nxt s (Head c (find_first_bit ?bm)),
           s\<lparr>bindex := (bindex s)(c := find_first_bit ?bm)\<rparr>)"
    by (rule pick_next_task_effect [OF len(1,2) refl])
  show ?thesis
  proof (cases "concat qs")
    case Nil
    then have "\<forall>p < N. qs ! p = []" using len(3) nth_mem [of _ qs] by auto
    then have "\<forall>p < length ?bm. \<not> ?bm ! p" using bit len(2) by simp
    then have "find_first_bit ?bm = N" using len(2) by (simp add: find_first_bit_none)
    moreover have "(case concat qs of [] \<Rightarrow> Null | t # _ \<Rightarrow> Thr t) = Null"
      unfolding Nil by simp
    ultimately show ?thesis using pick by auto
  next
    case (Cons t rest)
    from concat_first [OF this] obtain j q where j: "j < length qs" "\<forall>i < j. qs ! i = []"
      "qs ! j = t # q"
      by blast
    have jN: "j < N" using j(1) len(3) by simp
    have "find_first_bit ?bm = j"
    proof (rule find_first_bit_lowest)
      show "j < length ?bm" using jN len(2) by simp
      show "?bm ! j" using bit [OF jN] j(3) by simp
      show "\<forall>q < j. \<not> ?bm ! q" using bit j(2) jN by simp
    qed
    moreover have "nxt s (Head c j) = Thr t"
      using queue_first [OF rq_wf_queue [OF wf jN]] j(3) by simp
    ultimately show ?thesis using pick Cons jN by auto
  qed
qed

lemma pick_and_dequeue_wf:
  assumes "rq_wf N s c qs" and "bitmap_ok s c"
  shows "\<exists>s'. pick_and_dequeue N s c k = Inr (map Thr (take k (concat qs)), s')"
  using assms
proof (induction k arbitrary: s qs)
  case 0
  then show ?case by simp
next
  case (Suc k)
  from pick_next_task_wf [OF Suc.prems]
  obtain b where pick: "pick_next_task N s c =
      Inr (case concat qs of [] \<Rightarrow> Null | t # _ \<Rightarrow> Thr t, s\<lparr>bindex := (bindex s)(c := b)\<rparr>)"
    by blast
  let ?s1 = "s\<lparr>bindex := (bindex s)(c := b)\<rparr>"
  show ?case
  proof (cases "concat qs")
    case Nil
    have "(case concat qs of [] \<Rightarrow> Null | t # _ \<Rightarrow> Thr t) = Null"
      unfolding Nil by simp
    with pick show ?thesis unfolding Nil by simp
  next
    case (Cons t rest)
    from concat_first [OF this] obtain j q where j: "j < length qs" "\<forall>i < j. qs ! i = []"
      "qs ! j = t # q" "rest = q @ concat (drop (Suc j) qs)"
      by blast
    have wf1: "rq_wf N ?s1 c qs" and bm1: "bitmap_ok ?s1 c"
      using Suc.prems by simp_all
    have jN: "j < N" using j(1) rq_wf_lengths(3) [OF Suc.prems(1)] by simp
    have pt: "prio ?s1 (Thr t) = j"
      using queue_prio [OF rq_wf_queue [OF wf1 jN]] j(3) by simp
    have "t \<in> set (concat qs)" using Cons by simp
    from dequeue_rq_queue_correct [OF wf1 bm1 pt this]
    obtain s2 where s2: "dequeue_rq_queue ?s1 c (Thr t) = Inr s2"
      "rq_wf N s2 c (qs[j := remove1 t (qs ! j)])" "bitmap_ok s2 c"
      by blast
    have "concat (qs[j := remove1 t (qs ! j)]) = rest"
      using concat_update_first [OF j(1,2), of q] j(3,4) by simp
    with Suc.IH [OF s2(2,3)]
    obtain s' where "pick_and_dequeue N s2 c k = Inr (map Thr (take k rest), s')"
      by auto
    with pick Cons s2(1) show ?thesis by simp
  qed
qed

lemma not_in_concat_update:
  assumes "t \<notin> set (concat qs)" and "t \<notin> set q"
  shows "t \<notin> set (concat (qs[p := q]))"
proof
  assume "t \<in> set (concat (qs[p := q]))"
  then obtain l where "l \<in> set (qs[p := q])" "t \<in> set l" by auto
  then have "l = q \<or> l \<in> set qs" by (auto dest: set_update_subset_insert [THEN subsetD])
  with \<open>t \<in> set l\<close> assms show False by auto
qed

lemma not_in_concat_nth: "t \<notin> set (concat qs) \<Longrightarrow> p < length qs \<Longrightarrow> t \<notin> set (qs ! p)"
  using in_concat_nth [of p qs t] by blast

lemma not_in_concat_insert:
  assumes "t \<notin> set (concat qs)" and "p < length qs" and "t \<noteq> u"
    and "set q \<subseteq> insert u (set (qs ! p))"
  shows "t \<notin> set (concat (qs[p := q]))"
proof (rule not_in_concat_update [OF assms(1)])
  from not_in_concat_nth [OF assms(1,2)] assms(3,4) show "t \<notin> set q" by auto
qed

section \<open>Sequences of operations on the list contents\<close>

lemma length_lists_after: "length (lists_after pr qs x) = length qs"
  by (cases x) simp_all

lemma length_foldl_lists_after: "length (foldl (lists_after pr) qs xs) = length qs"
  by (induction xs arbitrary: qs) (simp_all add: length_lists_after)

lemma pre_ops_append:
  "pre_ops pr qs (xs @ ys) \<longleftrightarrow> pre_ops pr qs xs \<and> pre_ops pr (foldl (lists_after pr) qs xs) ys"
proof (induction xs arbitrary: qs)
  case Nil
  show ?case by simp
next
  case (Cons x xs)
  show ?case by (simp add: Cons.IH)
qed

lemma in_concat_iff: "t \<in> set (concat qs) \<longleftrightarrow> (\<exists>j < length qs. t \<in> set (qs ! j))"
proof
  assume "t \<in> set (concat qs)"
  then obtain q where q: "q \<in> set qs" "t \<in> set q" by auto
  from q(1) obtain j where "j < length qs" "qs ! j = q" unfolding in_set_conv_nth by blast
  with q(2) show "\<exists>j < length qs. t \<in> set (qs ! j)" by blast
next
  assume "\<exists>j < length qs. t \<in> set (qs ! j)"
  then obtain j where "j < length qs" "t \<in> set (qs ! j)" by blast
  then show "t \<in> set (concat qs)" by (rule in_concat_nth)
qed

lemma nth_update_cases: "j < length xs \<Longrightarrow> xs[i := x] ! j = (if i = j then x else xs ! j)"
  by (cases "i = j") simp_all

lemma stays_queued_op:
  assumes "pre_op pr qs x" and "op_thread x \<noteq> u" and "u \<in> set (concat qs)"
  shows "u \<in> set (concat (lists_after pr qs x))"
proof -
  from assms(3) obtain j where j: "j < length qs" "u \<in> set (qs ! j)"
    unfolding in_concat_iff by blast
  have "u \<in> set (lists_after pr qs x ! j)"
    using j assms(2) by (cases x) (simp_all add: nth_update_cases)
  with j(1) show ?thesis unfolding in_concat_iff by (auto simp: length_lists_after)
qed

lemma stays_queued:
  assumes "pre_ops pr qs xs" and "Dequeue u \<notin> set xs" and "u \<in> set (concat qs)"
  shows "u \<in> set (concat (foldl (lists_after pr) qs xs)) \<and> (\<forall>x \<in> set xs. op_thread x \<noteq> u)"
  using assms
proof (induction xs arbitrary: qs)
  case Nil
  then show ?case by simp
next
  case (Cons x xs)
  from Cons.prems have pre: "pre_op pr qs x" "pre_ops pr (lists_after pr qs x) xs"
    and nd: "Dequeue u \<notin> set xs" "x \<noteq> Dequeue u"
    by auto
  have x: "op_thread x \<noteq> u"
    using pre(1) nd(2) Cons.prems(3) by (cases x) auto
  have "u \<in> set (concat (lists_after pr qs x))"
    by (rule stays_queued_op [OF pre(1) x Cons.prems(3)])
  from Cons.IH [OF pre(2) nd(1) this] x show ?case by simp
qed

lemma queued_after_enqueue:
  assumes "pre_op pr qs x" and "x = Enqueue u \<or> x = Enqueue_head u"
  shows "u \<in> set (concat (lists_after pr qs x))"
proof -
  from assms have "pr u < length qs" by (cases x) simp_all
  moreover from this assms(2) have "u \<in> set (lists_after pr qs x ! pr u)"
    by (cases x) simp_all
  ultimately show ?thesis unfolding in_concat_iff by (auto simp: length_lists_after)
qed

lemma not_mentioned_before_enqueue:
  assumes "pre_ops pr qs (xs @ [Enqueue u])" and "Dequeue u \<notin> set xs"
  shows "u \<notin> set (concat qs) \<and> (\<forall>x \<in> set xs. op_thread x \<noteq> u)"
  using assms
proof (induction xs arbitrary: qs)
  case Nil
  then show ?case by simp
next
  case (Cons x xs)
  let ?qs = "lists_after pr qs x"
  from Cons.prems have pre: "pre_op pr qs x" "pre_ops pr ?qs (xs @ [Enqueue u])"
    and nd: "Dequeue u \<notin> set xs" "x \<noteq> Dequeue u"
    by auto
  from Cons.IH [OF pre(2) nd(1)] have ih: "u \<notin> set (concat ?qs)" "\<forall>x \<in> set xs. op_thread x \<noteq> u"
    by simp_all
  have x: "op_thread x \<noteq> u"
  proof
    assume "op_thread x = u"
    with nd(2) have "x = Enqueue u \<or> x = Enqueue_head u" by (cases x) auto
    from queued_after_enqueue [OF pre(1) this] ih(1) show False by simp
  qed
  moreover have "u \<notin> set (concat qs)"
    using stays_queued_op [OF pre(1) x] ih(1) by blast
  ultimately show ?case using ih(2) by simp
qed

lemma filter_remove1_other: "\<not> P u \<Longrightarrow> filter P (remove1 u l) = filter P l"
  by (induction l) auto

lemma filter_lists_after:
  assumes "op_thread x \<noteq> a" and "op_thread x \<noteq> b" and "j < length qs"
  shows "filter (\<lambda>y. y = a \<or> y = b) (lists_after pr qs x ! j) = filter (\<lambda>y. y = a \<or> y = b) (qs ! j)"
  using assms by (cases x) (simp_all add: nth_update_cases filter_remove1_other)

lemma filter_foldl_lists_after:
  assumes "\<forall>x \<in> set xs. op_thread x \<noteq> a" and "\<forall>x \<in> set xs. op_thread x \<noteq> b"
    and "j < length qs"
  shows "filter (\<lambda>y. y = a \<or> y = b) (foldl (lists_after pr) qs xs ! j)
           = filter (\<lambda>y. y = a \<or> y = b) (qs ! j)"
  using assms
proof (induction xs arbitrary: qs)
  case Nil
  show ?case by simp
next
  case (Cons x xs)
  have "filter (\<lambda>y. y = a \<or> y = b) (foldl (lists_after pr) (lists_after pr qs x) xs ! j)
      = filter (\<lambda>y. y = a \<or> y = b) (lists_after pr qs x ! j)"
    using Cons.prems by (intro Cons.IH) (simp_all add: length_lists_after)
  also have "\<dots> = filter (\<lambda>y. y = a \<or> y = b) (qs ! j)"
    using Cons.prems by (intro filter_lists_after) simp_all
  finally show ?case by simp
qed

lemma filter_none: "a \<notin> set l \<Longrightarrow> b \<notin> set l \<Longrightarrow> filter (\<lambda>y. y = a \<or> y = b) l = []"
  by (induction l) auto

lemma fifo_lists:
  assumes pre: "pre_ops pr qs (Enqueue a # mid @ Enqueue b # post)"
    and nda: "Dequeue a \<notin> set (mid @ post)" and ndb: "Dequeue b \<notin> set (mid @ post)"
    and same: "pr a = pr b"
  shows "filter (\<lambda>y. y = a \<or> y = b)
           (foldl (lists_after pr) qs (Enqueue a # mid @ Enqueue b # post) ! pr a) = [a, b]"
    and "a \<noteq> b" and "pr a < length qs"
proof -
  let ?P = "\<lambda>y. y = a \<or> y = b"
  let ?p = "pr a"
  let ?q1 = "lists_after pr qs (Enqueue a)"
  let ?q2 = "foldl (lists_after pr) ?q1 mid"
  let ?q3 = "lists_after pr ?q2 (Enqueue b)"
  let ?q4 = "foldl (lists_after pr) ?q3 post"
  from pre have pa: "pre_op pr qs (Enqueue a)" and pre1: "pre_ops pr ?q1 (mid @ Enqueue b # post)"
    by simp_all
  from pre1 have pmid: "pre_ops pr ?q1 mid" and pb: "pre_op pr ?q2 (Enqueue b)"
    and ppost: "pre_ops pr ?q3 post"
    by (simp_all add: pre_ops_append)
  from pmid pb have pmidb: "pre_ops pr ?q1 (mid @ [Enqueue b])"
    by (simp add: pre_ops_append)
  from pa have p: "?p < length qs" and anq: "a \<notin> set (concat qs)" by simp_all
  show "?p < length qs" by (rule p)
  have a1: "a \<in> set (concat ?q1)" by (rule queued_after_enqueue [OF pa]) simp
  from nda have nda': "Dequeue a \<notin> set mid" "Dequeue a \<notin> set post" by simp_all
  from ndb have ndb': "Dequeue b \<notin> set mid" "Dequeue b \<notin> set post" by simp_all
  from stays_queued [OF pmid nda'(1) a1]
  have a2: "a \<in> set (concat ?q2)" and mida: "\<forall>x \<in> set mid. op_thread x \<noteq> a" by simp_all
  from pb have bnq2: "b \<notin> set (concat ?q2)" by simp
  with a2 show ab: "a \<noteq> b" by auto
  from not_mentioned_before_enqueue [OF pmidb ndb'(1)]
  have bnq1: "b \<notin> set (concat ?q1)" and midb: "\<forall>x \<in> set mid. op_thread x \<noteq> b" by simp_all
  have l1: "length ?q1 = length qs" "length ?q2 = length qs" "length ?q3 = length qs"
    by (simp_all add: length_lists_after length_foldl_lists_after)
  have "b \<notin> set (?q1 ! ?p)" by (rule not_in_concat_nth [OF bnq1]) (simp add: p l1(1))
  moreover have "a \<notin> set (qs ! ?p)" by (rule not_in_concat_nth [OF anq p])
  ultimately have f1: "filter ?P (?q1 ! ?p) = [a]"
    using p by (simp add: filter_none)
  have f2: "filter ?P (?q2 ! ?p) = [a]"
    using filter_foldl_lists_after [OF mida midb, of ?p ?q1 pr] p l1(1) f1 by simp
  have f3: "filter ?P (?q3 ! ?p) = [a, b]"
    using f2 p l1(2) same by simp
  have a3: "a \<in> set (concat ?q3)"
    by (rule stays_queued_op [OF pb _ a2]) (use ab in auto)
  have b3: "b \<in> set (concat ?q3)" by (rule queued_after_enqueue [OF pb]) simp
  from stays_queued [OF ppost nda'(2) a3] have posta: "\<forall>x \<in> set post. op_thread x \<noteq> a" by simp
  from stays_queued [OF ppost ndb'(2) b3] have postb: "\<forall>x \<in> set post. op_thread x \<noteq> b" by simp
  have "filter ?P (?q4 ! ?p) = [a, b]"
    using filter_foldl_lists_after [OF posta postb, of ?p ?q3 pr] p l1(3) f3 by simp
  then show "filter ?P (foldl (lists_after pr) qs (Enqueue a # mid @ Enqueue b # post) ! ?p) = [a, b]"
    by simp
qed

section \<open>The order of the threads in the lists\<close>

lemma filter_concat_none:
  "\<forall>j < length qs. filter P (qs ! j) = [] \<Longrightarrow> filter P (concat qs) = []"
proof (induction qs)
  case Nil
  show ?case by simp
next
  case (Cons q qs)
  from Cons.prems have "filter P q = []" by (auto dest: spec [of _ 0])
  moreover have "\<forall>j < length qs. filter P (qs ! j) = []"
    using Cons.prems by (auto dest: spec [of _ "Suc _"])
  ultimately show ?case using Cons.IH by simp
qed

lemma filter_concat_single:
  "p < length qs \<Longrightarrow> \<forall>j < length qs. j \<noteq> p \<longrightarrow> filter P (qs ! j) = [] \<Longrightarrow>
   filter P (concat qs) = filter P (qs ! p)"
proof (induction qs arbitrary: p)
  case Nil
  then show ?case by simp
next
  case (Cons q qs)
  show ?case
  proof (cases p)
    case 0
    have "\<forall>j < length qs. filter P (qs ! j) = []"
      using Cons.prems(2) 0 by (auto dest: spec [of _ "Suc _"])
    then have "filter P (concat qs) = []" by (rule filter_concat_none)
    with 0 show ?thesis by simp
  next
    case (Suc p')
    from Cons.prems(2) Suc have "filter P q = []" by (auto dest: spec [of _ 0])
    moreover have "\<forall>j < length qs. j \<noteq> p' \<longrightarrow> filter P (qs ! j) = []"
      using Cons.prems(2) Suc by (auto dest: spec [of _ "Suc _"])
    moreover have "p' < length qs" using Cons.prems(1) Suc by simp
    ultimately show ?thesis using Cons.IH [of p'] Suc by simp
  qed
qed

lemma first_before_second:
  "filter (\<lambda>y. y = a \<or> y = b) l = [a, b] \<Longrightarrow> a \<noteq> b \<Longrightarrow>
   a \<in> set (takeWhile (\<lambda>y. y \<noteq> b) l)"
proof (induction l)
  case Nil
  then show ?case by simp
next
  case (Cons x l)
  then show ?case by (cases "x = a"; cases "x = b") auto
qed

lemma filter_prefix_both:
  assumes "filter P (xs @ ys) = [a, b]" and "b \<in> set xs" and "P b" and "a \<noteq> b"
  shows "filter P xs = [a, b]"
proof -
  from assms(2,3) have b: "b \<in> set (filter P xs)" by simp
  from assms(1) have "filter P xs @ filter P ys = [a, b]" by simp
  then consider "filter P xs = []" | "filter P xs = [a]" | "filter P xs = [a, b]"
    by (auto simp: append_eq_Cons_conv)
  then show ?thesis using b assms(4) by cases auto
qed

lemma first_before_second_take:
  assumes "filter (\<lambda>y. y = a \<or> y = b) l = [a, b]" and "a \<noteq> b" and "b \<in> set (take k l)"
  shows "a \<in> set (takeWhile (\<lambda>y. y \<noteq> b) (take k l))"
proof -
  have "filter (\<lambda>y. y = a \<or> y = b) (take k l @ drop k l) = [a, b]" using assms(1) by simp
  from filter_prefix_both [OF this assms(3) _ assms(2)]
  have "filter (\<lambda>y. y = a \<or> y = b) (take k l) = [a, b]" by simp
  then show ?thesis using assms(2) by (rule first_before_second)
qed

lemma takeWhile_map_Thr:
  "takeWhile (\<lambda>x. x \<noteq> Thr b) (map Thr l) = map Thr (takeWhile (\<lambda>y. y \<noteq> b) l)"
  by (induction l) auto


section \<open>Properties of the run-queue\<close>

text \<open>
  C1, as the code has it. Let run-queue \<open>c\<close> be well-formed with the list contents
  \<open>qs\<close> (every priority list a consistent circular list of threads of that priority), and
  let its bitmap agree with its lists before the sequence, as after boot. Then every sequence
  of \<open>enqueue_rq_queue_head\<close>, \<open>enqueue_rq_queue\<close> and \<open>dequeue_rq_queue\<close> calls
  whose preconditions hold (an enqueued thread has a priority in range and is not queued, a
  dequeued thread is queued) runs to the end, leaves the run-queue well-formed with the
  expected contents, and for every priority \<open>p\<close> bit \<open>p\<close> of the bitmap is set if and
  only if the priority-\<open>p\<close> list is non-empty (the head's \<open>next\<close> is not the head).
\<close>

theorem bitmap_list_consistency:
  assumes "rq_wf N s c qs" and "bitmap_ok s c"
    and "pre_ops (\<lambda>t. priority (threads s t)) qs ops"
  shows "\<exists>s'. run_ops s c ops = Inr s' \<and>
           rq_wf N s' c (foldl (lists_after (\<lambda>t. priority (threads s t))) qs ops) \<and>
           (\<forall>p < N. bitmap (run_tq s' c) ! p \<longleftrightarrow> next (array (run_tq s' c) ! p) \<noteq> Head c p)"
proof -
  from assms(3) have "pre_ops (\<lambda>t. prio s (Thr t)) qs ops" by (simp add: prio_Thr)
  from run_ops_correct [OF assms(1,2) this]
  obtain s' where s': "run_ops s c ops = Inr s'"
    "rq_wf N s' c (foldl (lists_after (\<lambda>t. prio s (Thr t))) qs ops)" "bitmap_ok s' c"
    by blast
  from s'(2,3) have "\<forall>p < N. bitmap (run_tq s' c) ! p \<longleftrightarrow> nxt s' (Head c p) \<noteq> Head c p"
    by (simp add: bitmap_ok_def rq_wf_lengths)
  with s'(1,2) show ?thesis by (simp add: prio_Thr nxt_Head)
qed

theorem bitmap_list_consistency_witness:
  "\<exists>s'. run_ops (idle_kernel 4 scenario_prio) 0 [Enqueue 1, Enqueue 2, Enqueue_head 3, Dequeue 2]
           = Inr s' \<and>
         rq_wf 4 s' 0 [[], [], [3, 1], []] \<and>
         (\<forall>p < 4. bitmap (run_tq s' 0) ! p \<longleftrightarrow> next (array (run_tq s' 0) ! p) \<noteq> Head 0 p)"
  using bitmap_list_consistency [of 4 "idle_kernel 4 scenario_prio" 0 "replicate 4 []"
      "[Enqueue 1, Enqueue 2, Enqueue_head 3, Dequeue 2]"]
    rq_wf_idle [of 4 scenario_prio 0] bitmap_ok_idle [of 4 scenario_prio 0]
  by (simp add: idle_kernel_def scenario_prio_def numeral_eq_Suc)

text \<open>
  C1, counterexample. Without the bitmap agreeing with the lists before the sequence the claim
  fails. On the run-queue whose lists are all empty (consistent circular lists, priorities in
  range) and whose bit 2 is set, enqueueing thread 2 (priority 0) and dequeueing it again are
  operations whose preconditions hold; they set and clear bit 0 only, so afterwards bit 2 is
  still set while the priority-2 list is empty.
\<close>

theorem stale_bit_survives_counterexample:
  "rq_wf 4 stale_kernel 0 [[], [], [], []] \<and>
   pre_ops scenario_prio [[], [], [], []] [Enqueue 2, Dequeue 2] \<and>
   \<not> isl (run_ops stale_kernel 0 [Enqueue 2, Dequeue 2]) \<and>
   bitmap (run_tq (projr (run_ops stale_kernel 0 [Enqueue 2, Dequeue 2])) 0) ! 2 \<and>
   next (array (run_tq (projr (run_ops stale_kernel 0 [Enqueue 2, Dequeue 2])) 0) ! 2) = Head 0 2"
proof -
  let ?k = stale_kernel
  have wf: "rq_wf 4 ?k 0 [[], [], [], []]"
    using rq_wf_idle [of 4 scenario_prio 0]
    by (simp add: stale_kernel_def rq_wf_def queue_at_def numeral_eq_Suc)
  have pre: "pre_ops scenario_prio [[], [], [], []] [Enqueue 2, Dequeue 2]"
    by (simp add: scenario_prio_def)
  have len: "length (bitmap (run_tq ?k 0)) = 4" "length (array (run_tq ?k 0)) = 4"
    by (simp_all add: stale_kernel_def idle_kernel_def empty_rq_def)
  have f: "prio ?k (Thr 2) = 0" "prv ?k (Head 0 0) = Head 0 0" "nxt ?k (Head 0 2) = Head 0 2"
    "bitmap (run_tq ?k 0) = [False, False, True, False]"
    by (simp_all add: stale_kernel_def idle_kernel_def empty_rq_def scenario_prio_def
        prio_Thr prv_Head nxt_Head)
  from enqueue_rq_queue_effect [of ?k "Thr 2" 0 0] len f
  obtain s1 where s1: "enqueue_rq_queue ?k 0 (Thr 2) = Inr s1"
    "nxt s1 = (nxt ?k)(Head 0 0 := Thr 2, Thr 2 := Head 0 0)"
    "prio s1 = prio ?k"
    "bitmap (run_tq s1 0) = [True, False, True, False]"
    "length (array (run_tq s1 0)) = 4"
    by auto
  from dequeue_rq_queue_effect [of s1 "Thr 2" 0 0 "Head 0 0" "(nxt s1)(Head 0 0 := Head 0 0)"]
    s1 f(1)
  obtain s2 where s2: "dequeue_rq_queue s1 0 (Thr 2) = Inr s2"
    "nxt s2 = (nxt s1)(Head 0 0 := Head 0 0)"
    "bitmap (run_tq s2 0) = [False, False, True, False]"
    by auto
  have r: "run_ops ?k 0 [Enqueue 2, Dequeue 2] = Inr s2"
    by (simp add: s1(1) s2(1))
  have "next (array (run_tq s2 0) ! 2) = Head 0 2"
    by (simp add: nxt_Head [symmetric] s2(2) s1(2) f(3))
  then have "\<not> isl (Inr s2 :: invalid_access + kernel) \<and>
      bitmap (run_tq (projr (Inr s2 :: invalid_access + kernel)) 0) ! 2 \<and>
      next (array (run_tq (projr (Inr s2 :: invalid_access + kernel)) 0) ! 2) = Head 0 2"
    by (simp add: s2(3))
  with wf pre show ?thesis unfolding r by (intro conjI) simp_all
qed

text \<open>
  C8, as the code has it. For every prior state of the calling CPU's run-queue (with its
  \<open>NR_PRIORITIES\<close> list heads), \<open>init_rq\<close> returns, and afterwards every priority level's
  list head has its \<open>next\<close> and \<open>prev\<close> pointing to itself. \<open>init_rq\<close> does not write the
  bitmap: the bitmap after the call is the bitmap before it, so it is all clear only if it was
  clear before. The thread descriptors are not written either.
\<close>

theorem init_rq_links_heads:
  assumes "length (array (run_tq s cpu)) = N"
  shows "\<exists>s'. init_rq N s cpu = Inr s' \<and>
     (\<forall>i < N. next (array (run_tq s' cpu) ! i) = Head cpu i \<and>
               prev (array (run_tq s' cpu) ! i) = Head cpu i) \<and>
     bitmap (run_tq s' cpu) = bitmap (run_tq s cpu) \<and>
     threads s' = threads s"
  using init_rq_effect [OF assms] by (auto simp: nxt_Head prv_Head)

theorem init_rq_links_heads_witness:
  "\<exists>s'. init_rq 4 stale_kernel 0 = Inr s' \<and>
     (\<forall>i < 4. next (array (run_tq s' 0) ! i) = Head 0 i \<and>
               prev (array (run_tq s' 0) ! i) = Head 0 i) \<and>
     bitmap (run_tq s' 0) = [False, False, True, False] \<and>
     threads s' = threads stale_kernel"
  using init_rq_links_heads [of stale_kernel 0 4]
  by (simp add: stale_kernel_def idle_kernel_def empty_rq_def put_bitmap_def)

text \<open>
  C8, counterexample. The claim that the bitmap is entirely cleared after \<open>init_rq\<close> for
  every prior state fails on a run-queue whose bit 2 is set before the call: the bit is still
  set afterwards.
\<close>

theorem init_rq_keeps_bitmap_counterexample:
  "\<not> isl (init_rq 4 stale_kernel 0) \<and>
   bitmap (run_tq (projr (init_rq 4 stale_kernel 0)) 0) ! 2"
proof -
  have "length (array (run_tq stale_kernel 0)) = 4"
    by (simp add: stale_kernel_def idle_kernel_def empty_rq_def put_bitmap_def)
  from init_rq_effect [OF this]
  obtain s' where "init_rq 4 stale_kernel 0 = Inr s'"
    "bitmap (run_tq s' 0) = bitmap (run_tq stale_kernel 0)"
    by blast
  then show ?thesis
    by (simp add: stale_kernel_def put_bitmap_def)
qed

text \<open>
  C2. For every state of the calling CPU's run-queue (with its \<open>NR_PRIORITIES\<close> list heads
  and bitmap bits), \<open>pick_next_task\<close> returns, and it leaves every run-queue (lists and
  bitmap) and every thread descriptor unchanged: it writes only \<open>bindex[cpu]\<close> and dequeues
  nothing. If no bit of the bitmap is set it returns NULL; otherwise it returns the \<open>next\<close>
  of the list head at the lowest-numbered set bit, the first thread of that list.
\<close>

theorem pick_next_task_result:
  assumes "length (array (run_tq s cpu)) = N" and "length (bitmap (run_tq s cpu)) = N"
  shows "\<exists>th s'. pick_next_task N s cpu = Inr (th, s') \<and>
           run_tq s' = run_tq s \<and> threads s' = threads s \<and>
           ((\<forall>p < N. \<not> bitmap (run_tq s cpu) ! p) \<longrightarrow> th = Null) \<and>
           (\<forall>p < N. bitmap (run_tq s cpu) ! p \<longrightarrow> (\<forall>q < p. \<not> bitmap (run_tq s cpu) ! q) \<longrightarrow>
              th = next (array (run_tq s cpu) ! p))"
proof -
  let ?bm = "bitmap (run_tq s cpu)"
  let ?b = "find_first_bit ?bm"
  have "pick_next_task N s cpu =
      Inr (if ?b = N then Null else nxt s (Head cpu ?b), s\<lparr>bindex := (bindex s)(cpu := ?b)\<rparr>)"
    by (rule pick_next_task_effect [OF assms refl])
  moreover have "?b = N" if "\<forall>p < N. \<not> ?bm ! p"
    using that find_first_bit_none [of ?bm] assms(2) by simp
  moreover have "?b = p" if "p < N" "?bm ! p" "\<forall>q < p. \<not> ?bm ! q" for p
    using that find_first_bit_lowest [of p ?bm] assms(2) by simp
  ultimately show ?thesis by (auto simp: nxt_Head)
qed

theorem pick_next_task_result_witness:
  "(\<exists>s'. pick_next_task 4 (idle_kernel 4 scenario_prio) 0 = Inr (Null, s') \<and>
          run_tq s' = run_tq (idle_kernel 4 scenario_prio) \<and>
          threads s' = threads (idle_kernel 4 scenario_prio)) \<and>
   (\<exists>s'. pick_next_task 4 scenario_kernel 0 = Inr (Thr 2, s') \<and>
          run_tq s' = run_tq scenario_kernel \<and> threads s' = threads scenario_kernel)"
proof
  let ?k = "idle_kernel 4 scenario_prio"
  have "length (array (run_tq ?k 0)) = 4" "length (bitmap (run_tq ?k 0)) = 4"
    by (simp_all add: idle_kernel_def empty_rq_def)
  from pick_next_task_result [OF this]
  obtain th s' where r: "pick_next_task 4 ?k 0 = Inr (th, s')" "run_tq s' = run_tq ?k"
    "threads s' = threads ?k" "(\<forall>p < 4. \<not> bitmap (run_tq ?k 0) ! p) \<longrightarrow> th = Null"
    by blast
  have "\<forall>p < 4. \<not> bitmap (run_tq ?k 0) ! p"
    by (simp add: idle_kernel_def empty_rq_def)
  with r show "\<exists>s'. pick_next_task 4 ?k 0 = Inr (Null, s') \<and> run_tq s' = run_tq ?k \<and>
      threads s' = threads ?k"
    by simp
next
  let ?k = scenario_kernel
  let ?bm = "bitmap (run_tq ?k 0)"
  have "length (array (run_tq ?k 0)) = 4" "length ?bm = 4"
    by (simp_all add: scenario_kernel_def)
  from pick_next_task_result [OF this]
  obtain th s' where r: "pick_next_task 4 ?k 0 = Inr (th, s')" "run_tq s' = run_tq ?k"
    "threads s' = threads ?k"
    "\<forall>p < 4. ?bm ! p \<longrightarrow> (\<forall>q < p. \<not> ?bm ! q) \<longrightarrow> th = next (array (run_tq ?k 0) ! p)"
    by blast
  from r(4) have "?bm ! 0 \<longrightarrow> th = next (array (run_tq ?k 0) ! 0)" by simp
  then have "th = Thr 2" by (simp add: scenario_kernel_def)
  with r show "\<exists>s'. pick_next_task 4 ?k 0 = Inr (Thr 2, s') \<and> run_tq s' = run_tq ?k \<and>
      threads s' = threads ?k"
    by simp
qed

text \<open>
  C10. \<open>enqueue_rq_queue\<close> and \<open>enqueue_rq_queue_head\<close> index the bitmap and the array
  with \<open>th->priority\<close> as it is. On a well-formed run-queue with \<open>NR_PRIORITIES\<close>
  priorities, if the priority of the thread is below \<open>NR_PRIORITIES\<close> every access of
  either operation is in bounds and the operation returns; if it is not, the operation does not
  fail on a check: its first access, the bitmap write at index \<open>th->priority\<close>, is outside
  the bounds.
\<close>

theorem enqueue_priority_unchecked:
  assumes "rq_wf N s rq qs"
  shows "(priority (threads s t) < N \<longrightarrow>
            (\<exists>s'. enqueue_rq_queue s rq (Thr t) = Inr s') \<and>
            (\<exists>s'. enqueue_rq_queue_head s rq (Thr t) = Inr s')) \<and>
         (N \<le> priority (threads s t) \<longrightarrow>
            enqueue_rq_queue s rq (Thr t) = Inl (OutOfBounds (priority (threads s t))) \<and>
            enqueue_rq_queue_head s rq (Thr t) = Inl (OutOfBounds (priority (threads s t))))"
  using enqueue_returns [OF assms, of t] enqueue_out_of_range [of s "Thr t" rq]
    rq_wf_lengths [OF assms]
  by (simp add: prio_Thr)

theorem enqueue_priority_unchecked_witness:
  "(\<exists>s'. enqueue_rq_queue (idle_kernel 4 scenario_prio) 0 (Thr 1) = Inr s') \<and>
   (\<exists>s'. enqueue_rq_queue_head (idle_kernel 4 scenario_prio) 0 (Thr 1) = Inr s') \<and>
   enqueue_rq_queue (idle_kernel 2 scenario_prio) 0 (Thr 1) = Inl (OutOfBounds 2) \<and>
   enqueue_rq_queue_head (idle_kernel 2 scenario_prio) 0 (Thr 1) = Inl (OutOfBounds 2)"
  using enqueue_priority_unchecked [OF rq_wf_idle [of 4 scenario_prio 0], of 1]
    enqueue_priority_unchecked [OF rq_wf_idle [of 2 scenario_prio 0], of 1]
  by (simp add: idle_kernel_def scenario_prio_def)

text \<open>
  C7, as the code has it. The three operations contain no check of whether the thread is
  queued. On a well-formed run-queue, \<open>enqueue_rq_queue\<close> and \<open>enqueue_rq_queue_head\<close> of
  a thread that is already queued run to the end and return, and so does \<open>dequeue_rq_queue\<close>
  of a thread that is not queued, whenever its priority is in range and its \<open>next\<close> and
  \<open>prev\<close> are pointers to existing structs. Nothing is detected and nothing is signalled.
\<close>

theorem queue_membership_unchecked:
  assumes "rq_wf N s c qs"
  shows "(t \<in> set (concat qs) \<longrightarrow>
            (\<exists>s'. enqueue_rq_queue s c (Thr t) = Inr s') \<and>
            (\<exists>s'. enqueue_rq_queue_head s c (Thr t) = Inr s')) \<and>
         (t \<notin> set (concat qs) \<and> priority (threads s t) < N \<and>
          valid s (next (threads s t)) \<and> valid s (prev (threads s t)) \<longrightarrow>
            (\<exists>s'. dequeue_rq_queue s c (Thr t) = Inr s'))"
proof -
  have "prio s (Thr t) < N" if "t \<in> set (concat qs)"
    using rq_wf_member [OF assms that] by simp
  then show ?thesis
    using enqueue_returns [OF assms, of t] dequeue_returns [OF assms, of t]
    by (auto simp: prio_Thr nxt_Thr prv_Thr)
qed

theorem queue_membership_unchecked_witness:
  "(\<exists>s'. enqueue_rq_queue scenario_kernel 0 (Thr 1) = Inr s') \<and>
   (\<exists>s'. enqueue_rq_queue_head scenario_kernel 0 (Thr 1) = Inr s') \<and>
   (\<exists>s'. dequeue_rq_queue
           (scenario_kernel\<lparr>threads := (threads scenario_kernel)
              (4 := \<lparr>priority = 2, next = Thr 3, prev = Thr 1\<rparr>)\<rparr>) 0 (Thr 4) = Inr s')"
proof -
  let ?k = "scenario_kernel\<lparr>threads := (threads scenario_kernel)
              (4 := \<lparr>priority = 2, next = Thr 3, prev = Thr 1\<rparr>)\<rparr>"
  have "rq_wf 4 ?k 0 [[2], [], [1, 3], []]"
    by (simp add: rq_wf_def queue_at_def dll_def scenario_kernel_def nxt_def prv_def prio_def
        node_def empty_rq_def less_Suc_eq numeral_eq_Suc)
  from queue_membership_unchecked [OF this, of 4]
    queue_membership_unchecked [OF scenario_kernel_wf(1), of 1]
  show ?thesis by (simp add: scenario_kernel_def)
qed

text \<open>
  C7, counterexample. The claim that a double enqueue or a dequeue of an absent thread is
  detected and signalled fails in the scenario of the spec. Enqueueing thread 1 a second time
  returns normally and leaves a corrupted list (thread 3 now points to thread 1, which points
  to the head, so thread 3 is no longer reached from the head). Dequeueing thread 2 and then
  dequeueing it again, when it is no longer queued, returns normally both times.
\<close>

theorem double_enqueue_undetected_counterexample:
  "\<not> isl (enqueue_rq_queue scenario_kernel 0 (Thr 1)) \<and>
   next (threads (projr (enqueue_rq_queue scenario_kernel 0 (Thr 1))) 3) = Thr 1 \<and>
   next (threads (projr (enqueue_rq_queue scenario_kernel 0 (Thr 1))) 1) = Head 0 2 \<and>
   \<not> isl (dequeue_rq_queue (projr (dequeue_rq_queue scenario_kernel 0 (Thr 2))) 0 (Thr 2))"
proof -
  have len: "length (bitmap (run_tq scenario_kernel 0)) = 4"
    "length (array (run_tq scenario_kernel 0)) = 4"
    by (simp_all add: scenario_kernel_def)
  have f: "prio scenario_kernel (Thr 1) = 2" "prv scenario_kernel (Head 0 2) = Thr 3"
    "prio scenario_kernel (Thr 2) = 0" "nxt scenario_kernel (Head 0 0) = Thr 2"
    "nxt scenario_kernel (Thr 2) = Head 0 0" "prv scenario_kernel (Thr 2) = Head 0 0"
    by (simp_all add: scenario_kernel_def prio_def prv_def nxt_def node_def)
  from enqueue_rq_queue_effect [of scenario_kernel "Thr 1" 2 0] len f
  obtain s1 where s1: "enqueue_rq_queue scenario_kernel 0 (Thr 1) = Inr s1"
    "nxt s1 = (nxt scenario_kernel)(Thr 3 := Thr 1, Thr 1 := Head 0 2)"
    by auto
  from dequeue_rq_queue_effect [of scenario_kernel "Thr 2" 0 0 "Head 0 0"
      "(nxt scenario_kernel)(Head 0 0 := Head 0 0)"] len f
  obtain s2 where s2: "dequeue_rq_queue scenario_kernel 0 (Thr 2) = Inr s2"
    "nxt s2 = (nxt scenario_kernel)(Head 0 0 := Head 0 0)"
    "prv s2 = (prv scenario_kernel)(Head 0 0 := Head 0 0)"
    "prio s2 = prio scenario_kernel"
    "length (array (run_tq s2 0)) = 4" "length (bitmap (run_tq s2 0)) = 4"
    by (auto split: if_splits)
  have "\<exists>s'. dequeue_rq_queue s2 0 (Thr 2) = Inr s'"
    using dequeue_rq_queue_effect [of s2 "Thr 2" 0 0 "Head 0 0" "(nxt s2)(Head 0 0 := Head 0 0)"]
      s2 f by auto
  moreover have "next (threads s1 3) = Thr 1" "next (threads s1 1) = Head 0 2"
    by (simp_all add: nxt_Thr [symmetric] s1(2))
  ultimately show ?thesis using s1(1) s2(1) by auto
qed

text \<open>
  C4, as the code has it. On a well-formed run-queue whose bitmap agrees with its lists, for a
  thread that is not queued and has a priority in range, enqueueing the thread (at the tail or
  at the head) and then dequeueing it returns and restores the run-queues exactly: the same
  bitmap, the same list heads, and every other thread descriptor as it was. The thread's own
  links are not reset by \<open>dequeue_rq_queue\<close>: they keep what the enqueue wrote. After a tail
  enqueue its \<open>next\<close> is the list head and its \<open>prev\<close> the former tail; after a head
  enqueue its \<open>next\<close> is the former first node and its \<open>prev\<close> the list head.
\<close>

theorem enqueue_dequeue_round_trip:
  assumes "rq_wf N s c qs" and "bitmap_ok s c"
    and "priority (threads s t) = p" and "p < N" and "t \<notin> set (concat qs)"
  shows "(\<exists>s1 s2. enqueue_rq_queue s c (Thr t) = Inr s1 \<and>
            dequeue_rq_queue s1 c (Thr t) = Inr s2 \<and>
            run_tq s2 = run_tq s \<and> (\<forall>u. u \<noteq> t \<longrightarrow> threads s2 u = threads s u) \<and>
            priority (threads s2 t) = p \<and>
            next (threads s2 t) = Head c p \<and>
            prev (threads s2 t) = prev (array (run_tq s c) ! p)) \<and>
         (\<exists>s1 s2. enqueue_rq_queue_head s c (Thr t) = Inr s1 \<and>
            dequeue_rq_queue s1 c (Thr t) = Inr s2 \<and>
            run_tq s2 = run_tq s \<and> (\<forall>u. u \<noteq> t \<longrightarrow> threads s2 u = threads s u) \<and>
            priority (threads s2 t) = p \<and>
            next (threads s2 t) = next (array (run_tq s c) ! p) \<and>
            prev (threads s2 t) = Head c p)"
proof -
  from assms(3) have p: "prio s (Thr t) = p" by (simp add: prio_Thr)
  from round_trip_tail [OF assms(1,2) p assms(4,5)]
  obtain s1 s2 where "enqueue_rq_queue s c (Thr t) = Inr s1"
    "dequeue_rq_queue s1 c (Thr t) = Inr s2" "run_tq s2 = run_tq s"
    "\<forall>u. u \<noteq> t \<longrightarrow> threads s2 u = threads s u" "prio s2 (Thr t) = p"
    "nxt s2 (Thr t) = Head c p" "prv s2 (Thr t) = prv s (Head c p)"
    by blast
  then have tail: "\<exists>s1 s2. enqueue_rq_queue s c (Thr t) = Inr s1 \<and>
            dequeue_rq_queue s1 c (Thr t) = Inr s2 \<and>
            run_tq s2 = run_tq s \<and> (\<forall>u. u \<noteq> t \<longrightarrow> threads s2 u = threads s u) \<and>
            priority (threads s2 t) = p \<and>
            next (threads s2 t) = Head c p \<and>
            prev (threads s2 t) = prev (array (run_tq s c) ! p)"
    by (simp add: prio_Thr nxt_Thr prv_Thr prv_Head)
  from round_trip_head [OF assms(1,2) p assms(4,5)]
  obtain s1 s2 where "enqueue_rq_queue_head s c (Thr t) = Inr s1"
    "dequeue_rq_queue s1 c (Thr t) = Inr s2" "run_tq s2 = run_tq s"
    "\<forall>u. u \<noteq> t \<longrightarrow> threads s2 u = threads s u" "prio s2 (Thr t) = p"
    "nxt s2 (Thr t) = nxt s (Head c p)" "prv s2 (Thr t) = Head c p"
    by blast
  then have "\<exists>s1 s2. enqueue_rq_queue_head s c (Thr t) = Inr s1 \<and>
            dequeue_rq_queue s1 c (Thr t) = Inr s2 \<and>
            run_tq s2 = run_tq s \<and> (\<forall>u. u \<noteq> t \<longrightarrow> threads s2 u = threads s u) \<and>
            priority (threads s2 t) = p \<and>
            next (threads s2 t) = next (array (run_tq s c) ! p) \<and>
            prev (threads s2 t) = Head c p"
    by (simp add: prio_Thr nxt_Thr prv_Thr nxt_Head)
  with tail show ?thesis by (rule conjI)
qed

theorem enqueue_dequeue_round_trip_witness:
  "(\<exists>s1 s2. enqueue_rq_queue scenario_kernel 0 (Thr 4) = Inr s1 \<and>
            dequeue_rq_queue s1 0 (Thr 4) = Inr s2 \<and>
            run_tq s2 = run_tq scenario_kernel \<and>
            (\<forall>u. u \<noteq> 4 \<longrightarrow> threads s2 u = threads scenario_kernel u) \<and>
            priority (threads s2 4) = 1 \<and>
            next (threads s2 4) = Head 0 1 \<and> prev (threads s2 4) = Head 0 1) \<and>
   (\<exists>s1 s2. enqueue_rq_queue_head scenario_kernel 0 (Thr 5) = Inr s1 \<and>
            dequeue_rq_queue s1 0 (Thr 5) = Inr s2 \<and>
            run_tq s2 = run_tq scenario_kernel \<and>
            (\<forall>u. u \<noteq> 5 \<longrightarrow> threads s2 u = threads scenario_kernel u) \<and>
            priority (threads s2 5) = 1 \<and>
            next (threads s2 5) = Head 0 1 \<and> prev (threads s2 5) = Head 0 1)"
proof -
  have p: "priority (threads scenario_kernel 4) = 1" "priority (threads scenario_kernel 5) = 1"
    "(1::nat) < 4" "4 \<notin> set (concat [[2], [], [1, 3], []::nat list])"
    "5 \<notin> set (concat [[2], [], [1, 3], []::nat list])"
    by (simp_all add: scenario_kernel_def scenario_prio_def)
  have h: "next (array (run_tq scenario_kernel 0) ! 1) = Head 0 1"
    "prev (array (run_tq scenario_kernel 0) ! 1) = Head 0 1"
    by (simp_all add: scenario_kernel_def)
  from enqueue_dequeue_round_trip [OF scenario_kernel_wf(1) scenario_kernel_wf(2) p(1) p(3) p(4)]
    enqueue_dequeue_round_trip [OF scenario_kernel_wf(1) scenario_kernel_wf(2) p(2) p(3) p(5)]
  show ?thesis unfolding h by blast
qed

text \<open>
  C4, counterexample. The claim that after the round trip the thread's \<open>next\<close> and
  \<open>prev\<close> point to the thread itself fails: for thread 1 (priority 2) on the empty
  run-queue, both point to the head of the priority-2 list afterwards.
\<close>

theorem dequeue_leaves_links_counterexample:
  "\<not> isl (enqueue_rq_queue (idle_kernel 4 scenario_prio) 0 (Thr 1)) \<and>
   \<not> isl (dequeue_rq_queue (projr (enqueue_rq_queue (idle_kernel 4 scenario_prio) 0 (Thr 1)))
           0 (Thr 1)) \<and>
   next (threads (projr (dequeue_rq_queue
           (projr (enqueue_rq_queue (idle_kernel 4 scenario_prio) 0 (Thr 1))) 0 (Thr 1))) 1)
     = Head 0 2 \<and>
   prev (threads (projr (dequeue_rq_queue
           (projr (enqueue_rq_queue (idle_kernel 4 scenario_prio) 0 (Thr 1))) 0 (Thr 1))) 1)
     = Head 0 2"
proof -
  let ?k = "idle_kernel 4 scenario_prio"
  have "prio ?k (Thr 1) = 2" by (simp add: prio_idle scenario_prio_def)
  from round_trip_tail [OF rq_wf_idle [of 4 scenario_prio 0] bitmap_ok_idle this]
  obtain s1 s2 where "enqueue_rq_queue ?k 0 (Thr 1) = Inr s1"
    "dequeue_rq_queue s1 0 (Thr 1) = Inr s2"
    "nxt s2 (Thr 1) = Head 0 2" "prv s2 (Thr 1) = prv ?k (Head 0 2)"
    by auto
  then show ?thesis
    by (simp add: nxt_Thr prv_Thr prv_Head idle_kernel_def empty_rq_def)
qed

text \<open>
  C5. On a well-formed run-queue, let threads A then B be enqueued at the tail of priority
  \<open>p\<close> and then a third thread C at the head of the same priority, all three distinct, not
  queued before and of priority \<open>p\<close>, with no lower-numbered priority non-empty. Then the
  three calls return, the priority-\<open>p\<close> list is C followed by the earlier contents followed
  by A and B, and the next \<open>pick_next_task\<close> returns C.
\<close>

theorem head_enqueue_is_next_pick:
  assumes wf: "rq_wf N s c qs" and bm: "bitmap_ok s c"
    and pa: "priority (threads s ta) = p" and pb: "priority (threads s tb) = p"
    and pc: "priority (threads s tc) = p" and pN: "p < N"
    and d: "distinct [ta, tb, tc]"
    and nq: "ta \<notin> set (concat qs)" "tb \<notin> set (concat qs)" "tc \<notin> set (concat qs)"
    and lower: "\<forall>p' < p. qs ! p' = []"
  shows "\<exists>s1 s2 s3 s4. enqueue_rq_queue s c (Thr ta) = Inr s1 \<and>
           enqueue_rq_queue s1 c (Thr tb) = Inr s2 \<and>
           enqueue_rq_queue_head s2 c (Thr tc) = Inr s3 \<and>
           rq_wf N s3 c (qs[p := tc # qs ! p @ [ta, tb]]) \<and>
           pick_next_task N s3 c = Inr (Thr tc, s4)"
proof -
  have len: "length qs = N" by (rule rq_wf_lengths(3) [OF wf])
  have pr: "prio s (Thr ta) = p" "prio s (Thr tb) = p" "prio s (Thr tc) = p"
    using pa pb pc by (simp_all add: prio_Thr)
  let ?q1 = "qs[p := qs ! p @ [ta]]"
  from enqueue_rq_queue_correct [OF wf bm pr(1) pN nq(1)]
  obtain s1 where s1: "enqueue_rq_queue s c (Thr ta) = Inr s1" "rq_wf N s1 c ?q1"
    "bitmap_ok s1 c" "prio s1 = prio s"
    by blast
  have nb: "tb \<notin> set (concat ?q1)"
    using d len pN by (intro not_in_concat_insert [OF nq(2), of p ta]) auto
  have nc: "tc \<notin> set (concat ?q1)"
    using d len pN by (intro not_in_concat_insert [OF nq(3), of p ta]) auto
  let ?q2 = "?q1[p := ?q1 ! p @ [tb]]"
  from enqueue_rq_queue_correct [OF s1(2,3) _ pN nb] pr s1(4)
  obtain s2 where s2: "enqueue_rq_queue s1 c (Thr tb) = Inr s2" "rq_wf N s2 c ?q2"
    "bitmap_ok s2 c" "prio s2 = prio s1"
    by auto
  have nc2: "tc \<notin> set (concat ?q2)"
    using d len pN by (intro not_in_concat_insert [OF nc, of p tb]) auto
  let ?q3 = "?q2[p := tc # ?q2 ! p]"
  from enqueue_rq_queue_head_correct [OF s2(2,3) _ pN nc2] pr s1(4) s2(4)
  obtain s3 where s3: "enqueue_rq_queue_head s2 c (Thr tc) = Inr s3" "rq_wf N s3 c ?q3"
    "bitmap_ok s3 c"
    by auto
  have q3: "?q3 = qs[p := tc # qs ! p @ [ta, tb]]" using len pN by simp
  have "concat ?q3 = (tc # qs ! p @ [ta, tb]) @ concat (drop (Suc p) qs)"
    unfolding q3 using len pN lower by (intro concat_update_first) simp_all
  then have "(case concat ?q3 of [] \<Rightarrow> Null | t # _ \<Rightarrow> Thr t) = Thr tc" by simp
  with pick_next_task_wf [OF s3(2,3)] obtain s4 where "pick_next_task N s3 c = Inr (Thr tc, s4)"
    by auto
  with s1(1) s2(1) s3(1,2) q3 show ?thesis by auto
qed

theorem head_enqueue_is_next_pick_witness:
  "\<exists>s1 s2 s3 s4. enqueue_rq_queue (idle_kernel 4 scenario_prio) 0 (Thr 4) = Inr s1 \<and>
           enqueue_rq_queue s1 0 (Thr 5) = Inr s2 \<and>
           enqueue_rq_queue_head s2 0 (Thr 6) = Inr s3 \<and>
           rq_wf 4 s3 0 [[], [6, 4, 5], [], []] \<and>
           pick_next_task 4 s3 0 = Inr (Thr 6, s4)"
proof -
  let ?k = "idle_kernel 4 scenario_prio"
  have "\<exists>s1 s2 s3 s4. enqueue_rq_queue ?k 0 (Thr 4) = Inr s1 \<and>
           enqueue_rq_queue s1 0 (Thr 5) = Inr s2 \<and>
           enqueue_rq_queue_head s2 0 (Thr 6) = Inr s3 \<and>
           rq_wf 4 s3 0 ((replicate 4 [])[1 := 6 # replicate 4 [] ! 1 @ [4, 5]]) \<and>
           pick_next_task 4 s3 0 = Inr (Thr 6, s4)"
    by (rule head_enqueue_is_next_pick [OF rq_wf_idle bitmap_ok_idle])
       (simp_all add: idle_kernel_def scenario_prio_def)
  then show ?thesis by (simp add: numeral_eq_Suc)
qed

text \<open>
  C3. On a well-formed run-queue, let thread A be enqueued with \<open>enqueue_rq_queue\<close> and
  later thread B of the same priority be enqueued with \<open>enqueue_rq_queue\<close>, with any
  operations whose preconditions hold in between and afterwards, none of them a dequeue of A
  or of B. Then picking the next task and dequeueing it, \<open>k\<close> times in turn, yields A
  before B: whenever B is among the threads yielded, A was yielded before the first occurrence
  of B, and once \<open>k\<close> reaches the number of queued threads both have been yielded.
\<close>

theorem fifo_order:
  assumes wf: "rq_wf N s c qs" and bm: "bitmap_ok s c"
    and pre: "pre_ops (\<lambda>t. priority (threads s t)) qs (Enqueue ta # mid @ Enqueue tb # post)"
    and same: "priority (threads s ta) = priority (threads s tb)"
    and nda: "Dequeue ta \<notin> set (mid @ post)" and ndb: "Dequeue tb \<notin> set (mid @ post)"
  shows "\<exists>s' ths s''. run_ops s c (Enqueue ta # mid @ Enqueue tb # post) = Inr s' \<and>
           pick_and_dequeue N s' c k = Inr (ths, s'') \<and>
           (Thr tb \<in> set ths \<longrightarrow> Thr ta \<in> set (takeWhile (\<lambda>x. x \<noteq> Thr tb) ths)) \<and>
           (length (concat (foldl (lists_after (\<lambda>t. priority (threads s t))) qs
                      (Enqueue ta # mid @ Enqueue tb # post))) \<le> k \<longrightarrow>
              Thr ta \<in> set ths \<and> Thr tb \<in> set ths)"
proof -
  let ?pr = "\<lambda>t. priority (threads s t)"
  let ?ops = "Enqueue ta # mid @ Enqueue tb # post"
  let ?q = "foldl (lists_after ?pr) qs ?ops"
  let ?L = "concat ?q"
  let ?P = "\<lambda>y. y = ta \<or> y = tb"
  let ?p = "?pr ta"
  have preq: "(\<lambda>t. prio s (Thr t)) = ?pr" by (simp add: prio_Thr)
  from run_ops_correct [OF wf bm, of ?ops] pre
  obtain s' where s': "run_ops s c ?ops = Inr s'" "rq_wf N s' c ?q" "bitmap_ok s' c"
    "prio s' = prio s"
    unfolding preq by blast
  from pick_and_dequeue_wf [OF s'(2,3), of k]
  obtain s'' where pd: "pick_and_dequeue N s' c k = Inr (map Thr (take k ?L), s'')"
    by blast
  note fl = fifo_lists [OF pre nda ndb same]
  have lq: "length ?q = N"
    using rq_wf_lengths(3) [OF wf] by (simp only: length_foldl_lists_after)
  have pN: "?p < N" using fl(3) rq_wf_lengths(3) [OF wf] by simp
  have other: "filter ?P (?q ! j) = []" if j: "j < length ?q" "j \<noteq> ?p" for j
  proof (rule filter_none)
    have jN: "j < N" using j(1) lq by simp
    have q: "queue_at s' c j (?q ! j)" by (rule rq_wf_queue [OF s'(2) jN])
    show "ta \<notin> set (?q ! j)"
      using queue_prio [OF q, of ta] j(2) by (auto simp: s'(4) prio_Thr)
    show "tb \<notin> set (?q ! j)"
      using queue_prio [OF q, of tb] j(2) same by (auto simp: s'(4) prio_Thr)
  qed
  have "filter ?P ?L = filter ?P (?q ! ?p)"
    using pN lq other by (intro filter_concat_single) simp_all
  with fl(1) have fL: "filter ?P ?L = [ta, tb]" by simp
  have before: "Thr ta \<in> set (takeWhile (\<lambda>x. x \<noteq> Thr tb) (map Thr (take k ?L)))"
    if "Thr tb \<in> set (map Thr (take k ?L))"
  proof -
    from that have "tb \<in> set (take k ?L)" by auto
    from first_before_second_take [OF fL fl(2) this] show ?thesis
      by (simp add: takeWhile_map_Thr)
  qed
  have both: "Thr ta \<in> set (map Thr (take k ?L)) \<and> Thr tb \<in> set (map Thr (take k ?L))"
    if "length ?L \<le> k"
  proof -
    have "ta \<in> set (filter ?P ?L)" "tb \<in> set (filter ?P ?L)" unfolding fL by simp_all
    then have "ta \<in> set ?L" "tb \<in> set ?L" by simp_all
    with that show ?thesis by simp
  qed
  from s'(1) pd before both show ?thesis by blast
qed

theorem fifo_order_witness:
  "\<exists>s' s''. run_ops (idle_kernel 4 scenario_prio) 0 [Enqueue 1, Enqueue 2, Enqueue 3] = Inr s' \<and>
     pick_and_dequeue 4 s' 0 3 = Inr ([Thr 2, Thr 1, Thr 3], s'') \<and>
     Thr 1 \<in> set (takeWhile (\<lambda>x. x \<noteq> Thr 3) [Thr 2, Thr 1, Thr 3])"
proof -
  let ?k = "idle_kernel 4 scenario_prio"
  have pre: "pre_ops (\<lambda>t. priority (threads ?k t)) (replicate 4 [])
      (Enqueue 1 # [Enqueue 2] @ Enqueue 3 # [])"
    by (simp add: idle_kernel_def scenario_prio_def numeral_eq_Suc)
  have same: "priority (threads ?k 1) = priority (threads ?k 3)"
    by (simp add: idle_kernel_def scenario_prio_def)
  have nd: "Dequeue 1 \<notin> set ([Enqueue 2] @ [])" "Dequeue 3 \<notin> set ([Enqueue 2] @ [])"
    by simp_all
  from fifo_order [OF rq_wf_idle [of 4 scenario_prio 0] bitmap_ok_idle pre same nd, where k = 3]
  obtain s' ths s'' where r: "run_ops ?k 0 [Enqueue 1, Enqueue 2, Enqueue 3] = Inr s'"
    "pick_and_dequeue 4 s' 0 3 = Inr (ths, s'')"
    "Thr 3 \<in> set ths \<longrightarrow> Thr 1 \<in> set (takeWhile (\<lambda>x. x \<noteq> Thr 3) ths)"
    by auto
  from r(1) have s': "s' = scenario_kernel" unfolding scenario_kernel_reached by simp
  from pick_and_dequeue_wf [OF scenario_kernel_wf, of 3] r(2)
  have "ths = [Thr 2, Thr 1, Thr 3]" unfolding s' by (auto simp: numeral_eq_Suc)
  with r show ?thesis by auto
qed

end
